theory Spec2Isabelle
  imports Main "HOL-Library.Sublist"
begin

text \<open>
  A shallow embedding of three parts of the DevTools front end and the properties proved
  of them: the issues and their aggregation (front\_end/sdk/Issue.js), the driver of
  visual logging (front\_end/ui/visual\_logging/LoggingDriver.ts) and the issues pane.
  Mutable objects are records that the functions return updated; a module with global
  variables is a record of them, together with the list of what it has done to the
  world outside; an exception is the left injection of a sum.
\<close>

section \<open>JavaScript values used by the front end\<close>

text \<open>
  A JavaScript \<^verbatim>\<open>Map\<close> keeps its entries in insertion order and holds a key at most once.
  It is an association list here: \<open>Map_set\<close> overwrites the value of a key that is present
  (the entry keeps its place) and appends a new entry otherwise, as \<^verbatim>\<open>Map.prototype.set\<close>
  does; \<open>Map_values\<close> lists the values in insertion order.
\<close>

type_synonym ('k, 'v) js_map = "('k \<times> 'v) list"

definition Map_new :: "('k, 'v) js_map" where
  "Map_new = []"

definition Map_has :: "'k \<Rightarrow> ('k, 'v) js_map \<Rightarrow> bool" where
  "Map_has k m = (k \<in> set (map fst m))"

fun Map_set :: "'k \<Rightarrow> 'v \<Rightarrow> ('k, 'v) js_map \<Rightarrow> ('k, 'v) js_map" where
  "Map_set k v [] = [(k, v)]"
| "Map_set k v ((k', v') # m) = (if k' = k then (k, v) # m else (k', v') # Map_set k v m)"

definition Map_size :: "('k, 'v) js_map \<Rightarrow> nat" where
  "Map_size m = length m"

definition Map_values :: "('k, 'v) js_map \<Rightarrow> 'v list" where
  "Map_values m = map snd m"

text \<open>
  Reading a property of \<^verbatim>\<open>null\<close> or \<^verbatim>\<open>undefined\<close> throws a \<^verbatim>\<open>TypeError\<close>. A value that
  may be \<^verbatim>\<open>null\<close> or \<^verbatim>\<open>undefined\<close> is an \<open>option\<close> (\<open>None\<close> for both: the code below
  only tests truthiness, which does not tell them apart), and \<open>property\<close> is the read of
  one of its fields.
\<close>

datatype js_error = TypeError

definition truthy :: "'a option \<Rightarrow> bool" where
  "truthy v = (v \<noteq> None)"

definition property :: "('a \<Rightarrow> 'b) \<Rightarrow> 'a option \<Rightarrow> js_error + 'b" where
  "property field v = (case v of None \<Rightarrow> Inl TypeError | Some obj \<Rightarrow> Inr (field obj))"


section \<open>Issues and their aggregation (front\_end/sdk/Issue.js)\<close>

text \<open>
  The resources of an issue are the protocol object that came with it: when present, an
  object whose \<^verbatim>\<open>cookies\<close> and \<^verbatim>\<open>requests\<close> fields, when present, are arrays of objects. A
  request object may or may not carry a \<^verbatim>\<open>requestId\<close>. The cookie objects are of an
  arbitrary type \<open>'c\<close>.
\<close>

record request =
  requestId :: "string option"

record 'c resources =
  cookies :: "'c list option"
  requests :: "request list option"

record 'c Issue =
  i_code :: string
  i_resources :: "'c resources option"

definition Issue_code :: "'c Issue \<Rightarrow> string" where
  "Issue_code this = i_code this"

definition Issue_resources :: "'c Issue \<Rightarrow> 'c resources option" where
  "Issue_resources this = i_resources this"

text \<open>
  The loop of \<^verbatim>\<open>isAssociatedWithRequestId\<close>: \<^verbatim>\<open>request.requestId === requestId\<close> holds when
  the field is present and is the same string (the argument is a string).
\<close>

fun requests_loop :: "request list \<Rightarrow> string \<Rightarrow> bool" where
  "requests_loop [] rid = False"
| "requests_loop (r # rs) rid = (if requestId r = Some rid then True else requests_loop rs rid)"

definition isAssociatedWithRequestId :: "'c Issue \<Rightarrow> string \<Rightarrow> js_error + bool" where
  "isAssociatedWithRequestId this rid =
     (if \<not> truthy (i_resources this) then Inr False
      else (case property requests (i_resources this) of
              Inl e \<Rightarrow> Inl e
            | Inr reqs \<Rightarrow>
                (if truthy reqs then
                   (if requests_loop (the reqs) rid then Inr True else Inr False)
                 else Inr False)))"

text \<open>
  An \<^verbatim>\<open>AggregatedIssue\<close> has the code it was constructed with, an array of resources and
  two maps, of cookies and of requests, keyed by strings.

  \<^verbatim>\<open>addInstance\<close> calls two functions that are not defined in Issue.js, and both are
  parameters of the model:
  \<^item> \<^verbatim>\<open>IssuesModel.connectWithIssue(cookie, issue)\<close> works by side effect on objects that
    live outside the aggregate: \<open>connectWithIssue c i h\<close> is the heap \<open>'h\<close> of those objects
    after the call;
  \<^item> \<^verbatim>\<open>JSON.stringify(cookie)\<close> reads the cookie object in the current heap:
    \<open>stringify h c\<close> is its result, of an arbitrary type \<open>'k\<close> of keys.
  A cookie \<open>c :: 'c\<close> is the object itself (its identity), which is what the map stores.
\<close>

record ('k, 'c) AggregatedIssue =
  a_code :: string
  a_resources :: "'c resources list"
  a_cookies :: "('k, 'c) js_map"
  a_requests :: "(string, request) js_map"

definition AggregatedIssue_new :: "string \<Rightarrow> ('k, 'c) AggregatedIssue" where
  "AggregatedIssue_new c =
     \<lparr>a_code = c, a_resources = [], a_cookies = Map_new, a_requests = Map_new\<rparr>"

definition AggregatedIssue_code :: "('k, 'c) AggregatedIssue \<Rightarrow> string" where
  "AggregatedIssue_code this = a_code this"

definition AggregatedIssue_cookies :: "('k, 'c) AggregatedIssue \<Rightarrow> 'c list" where
  "AggregatedIssue_cookies this = Map_values (a_cookies this)"

definition numberOfCookies :: "('k, 'c) AggregatedIssue \<Rightarrow> nat" where
  "numberOfCookies this = Map_size (a_cookies this)"

text \<open>The body of the loop over \<^verbatim>\<open>resources.cookies\<close>, for one cookie.\<close>

definition addInstance_cookie ::
  "('c \<Rightarrow> 'c Issue \<Rightarrow> 'h \<Rightarrow> 'h) \<Rightarrow> ('h \<Rightarrow> 'c \<Rightarrow> 'k) \<Rightarrow> 'c Issue \<Rightarrow> 'c \<Rightarrow>
   'h \<times> ('k, 'c) AggregatedIssue \<Rightarrow> 'h \<times> ('k, 'c) AggregatedIssue" where
  "addInstance_cookie connectWithIssue stringify issue cookie s =
     (let h = connectWithIssue cookie issue (fst s);
          this = snd s;
          key = stringify h cookie
      in if \<not> Map_has key (a_cookies this)
         then (h, this\<lparr>a_cookies := Map_set key cookie (a_cookies this)\<rparr>)
         else (h, this))"

definition addInstance ::
  "('c \<Rightarrow> 'c Issue \<Rightarrow> 'h \<Rightarrow> 'h) \<Rightarrow> ('h \<Rightarrow> 'c \<Rightarrow> 'k) \<Rightarrow> 'c Issue \<Rightarrow>
   'h \<times> ('k, 'c) AggregatedIssue \<Rightarrow> js_error + 'h \<times> ('k, 'c) AggregatedIssue" where
  "addInstance connectWithIssue stringify issue s =
     (let res = Issue_resources issue in
      if \<not> truthy res then Inr s
      else (case property cookies res of
              Inl e \<Rightarrow> Inl e
            | Inr cs \<Rightarrow>
                (if truthy cs
                 then Inr (fold (addInstance_cookie connectWithIssue stringify issue) (the cs) s)
                 else Inr s)))"

text \<open>A sequence of \<^verbatim>\<open>addInstance\<close> calls on one aggregate; an exception ends it.\<close>

fun addInstances ::
  "('c \<Rightarrow> 'c Issue \<Rightarrow> 'h \<Rightarrow> 'h) \<Rightarrow> ('h \<Rightarrow> 'c \<Rightarrow> 'k) \<Rightarrow> 'c Issue list \<Rightarrow>
   'h \<times> ('k, 'c) AggregatedIssue \<Rightarrow> js_error + 'h \<times> ('k, 'c) AggregatedIssue" where
  "addInstances connectWithIssue stringify [] s = Inr s"
| "addInstances connectWithIssue stringify (issue # issues) s =
     (case addInstance connectWithIssue stringify issue s of
        Inl e \<Rightarrow> Inl e
      | Inr s' \<Rightarrow> addInstances connectWithIssue stringify issues s')"

text \<open>
  What the claims speak of: the cookies found in the \<^verbatim>\<open>resources.cookies\<close> of a list of
  issues, in the order of the calls, and the cookies of a list whose serialisation has
  not been seen earlier in the list.
\<close>

definition issue_cookies :: "'c Issue \<Rightarrow> 'c list" where
  "issue_cookies issue =
     (case i_resources issue of
        None \<Rightarrow> []
      | Some r \<Rightarrow> (case cookies r of None \<Rightarrow> [] | Some cs \<Rightarrow> cs))"

definition all_cookies :: "'c Issue list \<Rightarrow> 'c list" where
  "all_cookies issues = concat (map issue_cookies issues)"

fun first_seen :: "('c \<Rightarrow> 'k) \<Rightarrow> 'k list \<Rightarrow> 'c list \<Rightarrow> 'c list" where
  "first_seen f seen [] = []"
| "first_seen f seen (c # cs) =
     (if f c \<in> set seen then first_seen f seen cs else c # first_seen f (seen @ [f c]) cs)"


text \<open>
  Concrete data for the examples below: a cookie is a pair of an object identity and its
  content, serialised to its content; connecting appends to a list of connections.
\<close>

type_synonym example_cookie = "nat \<times> string"

definition example_connect ::
  "example_cookie \<Rightarrow> example_cookie Issue \<Rightarrow> (example_cookie \<times> string) list \<Rightarrow>
   (example_cookie \<times> string) list" where
  "example_connect c i h = h @ [(c, i_code i)]"

definition example_stringify :: "(example_cookie \<times> string) list \<Rightarrow> example_cookie \<Rightarrow> string" where
  "example_stringify h c = snd c"

definition example_issues :: "example_cookie Issue list" where
  "example_issues =
     [\<lparr>i_code = ''SameSiteCookieIssue'',
       i_resources = Some \<lparr>cookies = Some [(1, ''a''), (2, ''b'')], requests = None\<rparr>\<rparr>,
      \<lparr>i_code = ''SameSiteCookieIssue'', i_resources = None\<rparr>,
      \<lparr>i_code = ''SameSiteCookieIssue'',
       i_resources = Some \<lparr>cookies = Some [(3, ''a''), (4, ''c'')],
                            requests = Some [\<lparr>requestId = Some ''r1''\<rparr>, \<lparr>requestId = None\<rparr>]\<rparr>\<rparr>]"


subsection \<open>Lemmas about the cookie map\<close>

text \<open>
  The loop body without the heap: what one cookie does to the cookie map when its key
  is computed by \<open>f\<close>.
\<close>

definition add_pure :: "('c \<Rightarrow> 'k) \<Rightarrow> 'c \<Rightarrow> ('k, 'c) js_map \<Rightarrow> ('k, 'c) js_map" where
  "add_pure f c m = (if Map_has (f c) m then m else m @ [(f c, c)])"

lemma Map_set_absent: "\<not> Map_has k m \<Longrightarrow> Map_set k v m = m @ [(k, v)]"
  by (induction m) (auto simp: Map_has_def)

lemma fold_add_pure:
  "fold (add_pure f) cs m = m @ map (\<lambda>c. (f c, c)) (first_seen f (map fst m) cs)"
proof (induction cs arbitrary: m)
  case Nil
  show ?case by simp
next
  case (Cons c cs)
  show ?case
  proof (cases "f c \<in> set (map fst m)")
    case True
    then have "add_pure f c m = m" by (simp add: add_pure_def Map_has_def)
    with True Cons show ?thesis by simp
  next
    case False
    then have "add_pure f c m = m @ [(f c, c)]" by (simp add: add_pure_def Map_has_def)
    with False Cons show ?thesis by simp
  qed
qed

lemma first_seen_keys: "set (map f (first_seen f seen cs)) = f ` set cs - set seen"
  by (induction cs arbitrary: seen) auto

lemma first_seen_distinct: "distinct (map f (first_seen f seen cs))"
  by (induction cs arbitrary: seen) (auto simp: first_seen_keys[simplified])

lemma first_seen_subseq: "subseq (first_seen f seen cs) cs"
  by (induction cs arbitrary: seen) auto

lemma first_seen_find:
  "c \<in> set (first_seen f seen cs) \<Longrightarrow> find (\<lambda>x. f x = f c) cs = Some c"
proof (induction cs arbitrary: seen)
  case Nil
  then show ?case by simp
next
  case (Cons x xs)
  show ?case
  proof (cases "f x \<in> set seen")
    case True
    with Cons.prems have in_rest: "c \<in> set (first_seen f seen xs)" by simp
    then have "f c \<in> set (map f (first_seen f seen xs))" by simp
    then have "f c \<notin> set seen" unfolding first_seen_keys by simp
    with True have "f x \<noteq> f c" by auto
    with Cons.IH[OF in_rest] show ?thesis by simp
  next
    case False
    with Cons.prems have "c = x \<or> c \<in> set (first_seen f (seen @ [f x]) xs)" by simp
    then show ?thesis
    proof
      assume "c = x"
      then show ?thesis by simp
    next
      assume in_rest: "c \<in> set (first_seen f (seen @ [f x]) xs)"
      then have "f c \<in> set (map f (first_seen f (seen @ [f x]) xs))" by simp
      then have "f c \<notin> set (seen @ [f x])" unfolding first_seen_keys by simp
      then have "f x \<noteq> f c" by auto
      with Cons.IH[OF in_rest] show ?thesis by simp
    qed
  qed
qed

lemma first_seen_disjoint: "set (map f (first_seen f seen cs)) \<inter> set seen = {}"
  by (simp only: first_seen_keys) blast

lemma fold_addInstance_cookie:
  assumes stable: "\<And>c i h. stringify (connectWithIssue c i h) = stringify h"
  shows "\<exists>h'. fold (addInstance_cookie connectWithIssue stringify issue) cs (h, a) =
           (h', a\<lparr>a_cookies := fold (add_pure (stringify h)) cs (a_cookies a)\<rparr>)
         \<and> stringify h' = stringify h"
proof (induction cs arbitrary: h a)
  case Nil
  show ?case by simp
next
  case (Cons c cs)
  let ?h1 = "connectWithIssue c issue h"
  let ?a1 = "a\<lparr>a_cookies := add_pure (stringify h) c (a_cookies a)\<rparr>"
  have step: "addInstance_cookie connectWithIssue stringify issue c (h, a) = (?h1, ?a1)"
    by (simp add: addInstance_cookie_def add_pure_def Map_set_absent stable Let_def)
  from Cons[of ?h1 ?a1] obtain h' where
    "fold (addInstance_cookie connectWithIssue stringify issue) cs (?h1, ?a1) =
       (h', ?a1\<lparr>a_cookies := fold (add_pure (stringify ?h1)) cs (a_cookies ?a1)\<rparr>)"
    and "stringify h' = stringify ?h1" by blast
  with step show ?case by (simp add: stable)
qed


lemma addInstance_Inr:
  assumes stable: "\<And>c i h. stringify (connectWithIssue c i h) = stringify h"
  shows "\<exists>h'. addInstance connectWithIssue stringify issue (h, a) =
           Inr (h', a\<lparr>a_cookies := fold (add_pure (stringify h)) (issue_cookies issue) (a_cookies a)\<rparr>)
         \<and> stringify h' = stringify h"
proof (cases "i_resources issue")
  case None
  then show ?thesis
    by (simp add: addInstance_def Issue_resources_def truthy_def issue_cookies_def)
next
  case (Some r)
  show ?thesis
  proof (cases "cookies r")
    case None
    with Some show ?thesis
      by (simp add: addInstance_def Issue_resources_def truthy_def issue_cookies_def property_def)
  next
    case (Some cs)
    from fold_addInstance_cookie[of stringify connectWithIssue issue cs h a, OF stable]
    obtain h' where
      "fold (addInstance_cookie connectWithIssue stringify issue) cs (h, a) =
         (h', a\<lparr>a_cookies := fold (add_pure (stringify h)) cs (a_cookies a)\<rparr>)"
      and "stringify h' = stringify h" by blast
    with Some \<open>i_resources issue = Some r\<close> show ?thesis
      by (simp add: addInstance_def Issue_resources_def truthy_def issue_cookies_def property_def)
  qed
qed

lemma addInstances_Inr:
  assumes stable: "\<And>c i h. stringify (connectWithIssue c i h) = stringify h"
  shows "\<exists>h'. addInstances connectWithIssue stringify issues (h, a) =
           Inr (h', a\<lparr>a_cookies := fold (add_pure (stringify h)) (all_cookies issues) (a_cookies a)\<rparr>)
         \<and> stringify h' = stringify h"
proof (induction issues arbitrary: h a)
  case Nil
  show ?case by (simp add: all_cookies_def)
next
  case (Cons issue issues)
  let ?a1 = "a\<lparr>a_cookies := fold (add_pure (stringify h)) (issue_cookies issue) (a_cookies a)\<rparr>"
  from addInstance_Inr[of stringify connectWithIssue issue h a, OF stable]
  obtain h1 where one: "addInstance connectWithIssue stringify issue (h, a) = Inr (h1, ?a1)"
    and s1: "stringify h1 = stringify h" by blast
  from Cons[of h1 ?a1] obtain h' where
    "addInstances connectWithIssue stringify issues (h1, ?a1) =
       Inr (h', ?a1\<lparr>a_cookies := fold (add_pure (stringify h1)) (all_cookies issues) (a_cookies ?a1)\<rparr>)"
    and "stringify h' = stringify h1" by blast
  with one s1 show ?case by (simp add: all_cookies_def)
qed


subsection \<open>Claim C1: affected cookies are deduplicated\<close>

text \<open>
  C1. Provided \<^verbatim>\<open>connectWithIssue\<close> does not change what \<^verbatim>\<open>JSON.stringify\<close> returns for
  a cookie, every sequence of \<^verbatim>\<open>addInstance\<close> calls on a new \<^verbatim>\<open>AggregatedIssue\<close> returns
  normally, and afterwards the cookie map holds exactly one entry per distinct
  serialisation among the cookies of the added issues' \<^verbatim>\<open>resources.cookies\<close>: its keys are
  distinct and are those serialisations, \<^verbatim>\<open>numberOfCookies()\<close> is their number, and
  \<^verbatim>\<open>cookies()\<close> yields, in the order of first insertion, the first cookie seen with each
  serialisation (\<open>first_seen\<close>): the cookies it yields come in the order they have in the
  added issues, and each of them is the first cookie there that has its serialisation.
\<close>

theorem aggregated_cookies_deduplicated:
  assumes stable: "\<And>c i h. stringify (connectWithIssue c i h) = stringify h"
  shows "\<exists>h' a'.
      addInstances connectWithIssue stringify issues (h, AggregatedIssue_new code) = Inr (h', a')
    \<and> a_cookies a' =
        map (\<lambda>c. (stringify h c, c)) (first_seen (stringify h) [] (all_cookies issues))
    \<and> distinct (map fst (a_cookies a'))
    \<and> set (map fst (a_cookies a')) = stringify h ` set (all_cookies issues)
    \<and> numberOfCookies a' = card (stringify h ` set (all_cookies issues))
    \<and> AggregatedIssue_cookies a' = first_seen (stringify h) [] (all_cookies issues)
    \<and> subseq (AggregatedIssue_cookies a') (all_cookies issues)
    \<and> (\<forall>c \<in> set (AggregatedIssue_cookies a').
          find (\<lambda>x. stringify h x = stringify h c) (all_cookies issues) = Some c)"
proof -
  let ?f = "stringify h"
  let ?fs = "first_seen ?f [] (all_cookies issues)"
  let ?m = "map (\<lambda>c. (?f c, c)) ?fs"
  from addInstances_Inr[of stringify connectWithIssue issues h "AggregatedIssue_new code", OF stable]
  obtain h' where run:
    "addInstances connectWithIssue stringify issues (h, AggregatedIssue_new code) =
       Inr (h', (AggregatedIssue_new code)\<lparr>a_cookies := ?m\<rparr>)"
    by (auto simp: fold_add_pure AggregatedIssue_new_def Map_new_def)
  define a' where "a' = (AggregatedIssue_new code)\<lparr>a_cookies := ?m\<rparr>"
  have c: "a_cookies a' = ?m" by (simp add: a'_def)
  have keys: "map fst ?m = map ?f ?fs" by (simp add: comp_def)
  have d: "distinct (map fst ?m)" unfolding keys by (rule first_seen_distinct)
  have s: "set (map fst ?m) = ?f ` set (all_cookies issues)"
    unfolding keys by (simp only: first_seen_keys) simp
  have "card (set (map fst ?m)) = length (map fst ?m)" using d by (rule distinct_card)
  then have n: "length ?m = card (?f ` set (all_cookies issues))"
    unfolding s by simp
  have v: "map snd ?m = ?fs" by (simp add: comp_def)
  show ?thesis
  proof (intro exI[of _ h'] exI[of _ a'] conjI)
    show "addInstances connectWithIssue stringify issues (h, AggregatedIssue_new code) = Inr (h', a')"
      using run by (simp add: a'_def)
    show "a_cookies a' = ?m" by (rule c)
    show "distinct (map fst (a_cookies a'))" unfolding c by (rule d)
    show "set (map fst (a_cookies a')) = ?f ` set (all_cookies issues)" unfolding c by (rule s)
    show "numberOfCookies a' = card (?f ` set (all_cookies issues))"
      unfolding numberOfCookies_def Map_size_def c by (rule n)
    show vs: "AggregatedIssue_cookies a' = ?fs"
      unfolding AggregatedIssue_cookies_def Map_values_def c by (rule v)
    show "subseq (AggregatedIssue_cookies a') (all_cookies issues)"
      unfolding vs by (rule first_seen_subseq)
    show "\<forall>c \<in> set (AggregatedIssue_cookies a').
            find (\<lambda>x. ?f x = ?f c) (all_cookies issues) = Some c"
      unfolding vs by (simp add: first_seen_find)
  qed
qed

theorem aggregated_cookies_deduplicated_witness:
  "(\<forall>c i h. example_stringify (example_connect c i h) = example_stringify h)
   \<and> (\<exists>h' a'.
        addInstances example_connect example_stringify example_issues
          ([], AggregatedIssue_new ''SameSiteCookieIssue'') = Inr (h', a')
      \<and> numberOfCookies a' = 3
      \<and> AggregatedIssue_cookies a' = [(1, ''a''), (2, ''b''), (4, ''c'')])"
proof -
  have st: "\<And>c i h. example_stringify (example_connect c i h) = example_stringify h"
    by (simp add: example_stringify_def fun_eq_iff)
  have cs: "all_cookies example_issues = [(1, ''a''), (2, ''b''), (3, ''a''), (4, ''c'')]"
    by (simp add: all_cookies_def issue_cookies_def example_issues_def)
  have fs: "first_seen (example_stringify []) [] [(1, ''a''), (2, ''b''), (3, ''a''), (4, ''c'')]
              = [(1, ''a''), (2, ''b''), (4, ''c'')]"
    by (simp add: example_stringify_def)
  have im: "example_stringify [] ` set [(1::nat, ''a''), (2, ''b''), (3, ''a''), (4, ''c'')]
              = {''a'', ''b'', ''c''}"
    by (auto simp: example_stringify_def)
  have cd: "card {''a'', ''b'', ''c''} = 3" by simp
  from aggregated_cookies_deduplicated
         [of example_stringify example_connect example_issues "[]" "''SameSiteCookieIssue''", OF st]
  show ?thesis
    unfolding cs fs im cd using st by blast
qed

subsection \<open>Claim C7: issues without resources are ignored, the code is kept\<close>

lemma fold_addInstance_cookie_code:
  "a_code (snd (fold (addInstance_cookie connectWithIssue stringify issue) cs s)) = a_code (snd s)"
  by (induction cs arbitrary: s) (simp_all add: addInstance_cookie_def Let_def)

lemma addInstance_code:
  "\<exists>s'. addInstance connectWithIssue stringify issue s = Inr s' \<and> a_code (snd s') = a_code (snd s)"
  by (cases "i_resources issue"; cases "cookies (the (i_resources issue))")
     (simp_all add: addInstance_def Issue_resources_def truthy_def property_def
        fold_addInstance_cookie_code)

lemma addInstances_code:
  "\<exists>s'. addInstances connectWithIssue stringify issues s = Inr s' \<and> a_code (snd s') = a_code (snd s)"
proof (induction issues arbitrary: s)
  case Nil
  show ?case by simp
next
  case (Cons issue issues)
  from addInstance_code[of connectWithIssue stringify issue s]
  obtain s1 where one: "addInstance connectWithIssue stringify issue s = Inr s1"
    and c1: "a_code (snd s1) = a_code (snd s)" by blast
  from Cons[of s1] obtain s' where
    "addInstances connectWithIssue stringify issues s1 = Inr s'" and "a_code (snd s') = a_code (snd s1)"
    by blast
  with one c1 show ?case by simp
qed

text \<open>
  C7. For an issue whose \<^verbatim>\<open>resources()\<close> is \<^verbatim>\<open>null\<close> or \<^verbatim>\<open>undefined\<close>, \<^verbatim>\<open>addInstance\<close>
  returns and leaves the aggregate (its cookie map, hence \<^verbatim>\<open>cookies()\<close> and
  \<^verbatim>\<open>numberOfCookies()\<close>) as it was; and after any sequence of \<^verbatim>\<open>addInstance\<close> calls
  \<^verbatim>\<open>code()\<close> is the code given to the constructor.
\<close>

theorem addInstance_ignores_missing_resources_and_keeps_code:
  "(Issue_resources issue = None \<longrightarrow>
      addInstance connectWithIssue stringify issue (h, this) = Inr (h, this))
   \<and> (\<exists>h' this'. addInstances connectWithIssue stringify issues (h, AggregatedIssue_new c)
          = Inr (h', this')
        \<and> AggregatedIssue_code this' = c)"
proof (intro conjI impI)
  assume "Issue_resources issue = None"
  then show "addInstance connectWithIssue stringify issue (h, this) = Inr (h, this)"
    by (simp add: addInstance_def truthy_def)
next
  from addInstances_code[of connectWithIssue stringify issues "(h, AggregatedIssue_new c)"]
  show "\<exists>h' this'. addInstances connectWithIssue stringify issues (h, AggregatedIssue_new c)
          = Inr (h', this') \<and> AggregatedIssue_code this' = c"
    by (auto simp: AggregatedIssue_code_def AggregatedIssue_new_def)
qed

theorem addInstance_ignores_missing_resources_and_keeps_code_witness:
  "Issue_resources (example_issues ! 1) = None
   \<and> addInstance example_connect example_stringify (example_issues ! 1)
         ([], (AggregatedIssue_new ''X'')\<lparr>a_cookies := [(''a'', (1, ''a''))]\<rparr>)
       = Inr ([], (AggregatedIssue_new ''X'')\<lparr>a_cookies := [(''a'', (1, ''a''))]\<rparr>)
   \<and> (\<exists>h' this'. addInstances example_connect example_stringify example_issues
          ([], AggregatedIssue_new ''X'') = Inr (h', this')
        \<and> AggregatedIssue_code this' = ''X'')"
proof -
  have r: "Issue_resources (example_issues ! 1) = None"
    by (simp add: example_issues_def Issue_resources_def)
  from addInstance_ignores_missing_resources_and_keeps_code
         [of "example_issues ! 1" example_connect example_stringify "[]"
             "(AggregatedIssue_new ''X'')\<lparr>a_cookies := [(''a'', (1, ''a''))]\<rparr>"
             example_issues "''X''"]
  show ?thesis using r by blast
qed

subsection \<open>Claim C10: association of an issue with a request\<close>

lemma requests_loop_iff: "requests_loop rs rid \<longleftrightarrow> (\<exists>r \<in> set rs. requestId r = Some rid)"
  by (induction rs) auto

lemma isAssociatedWithRequestId_eq:
  "isAssociatedWithRequestId this rid =
     Inr (\<exists>res reqs. i_resources this = Some res \<and> requests res = Some reqs
            \<and> (\<exists>r \<in> set reqs. requestId r = Some rid))"
  by (cases "i_resources this"; cases "requests (the (i_resources this))")
     (auto simp: isAssociatedWithRequestId_def truthy_def property_def requests_loop_iff)

text \<open>
  C10. \<^verbatim>\<open>isAssociatedWithRequestId(requestId)\<close> returns \<^verbatim>\<open>true\<close> if and only if the issue's
  resources are present, have a \<^verbatim>\<open>requests\<close> collection, and some request in it has a
  \<^verbatim>\<open>requestId\<close> equal to the argument; it never throws, and it returns \<^verbatim>\<open>false\<close> when the
  resources are \<^verbatim>\<open>null\<close> or \<^verbatim>\<open>undefined\<close> or have no \<^verbatim>\<open>requests\<close> field.
\<close>

theorem isAssociatedWithRequestId_iff:
  "(isAssociatedWithRequestId this rid = Inr True \<longleftrightarrow>
      (\<exists>res reqs r. i_resources this = Some res \<and> requests res = Some reqs
         \<and> r \<in> set reqs \<and> requestId r = Some rid))
   \<and> (\<forall>e. isAssociatedWithRequestId this rid \<noteq> Inl e)
   \<and> (i_resources this = None \<or> (\<exists>res. i_resources this = Some res \<and> requests res = None)
        \<longrightarrow> isAssociatedWithRequestId this rid = Inr False)"
  unfolding isAssociatedWithRequestId_eq by auto


theorem isAssociatedWithRequestId_iff_witness:
  "isAssociatedWithRequestId (example_issues ! 2) ''r1'' = Inr True
   \<and> isAssociatedWithRequestId (example_issues ! 2) ''r2'' = Inr False
   \<and> i_resources (example_issues ! 1) = None
   \<and> isAssociatedWithRequestId (example_issues ! 1) ''r1'' = Inr False
   \<and> (\<exists>res. i_resources (example_issues ! 0) = Some res \<and> requests res = None)
   \<and> isAssociatedWithRequestId (example_issues ! 0) ''r1'' = Inr False"
proof -
  have a: "\<exists>res reqs r. i_resources (example_issues ! 2) = Some res \<and> requests res = Some reqs
             \<and> r \<in> set reqs \<and> requestId r = Some ''r1''"
    by (auto simp: example_issues_def)
  have b: "\<not> (\<exists>res reqs r. i_resources (example_issues ! 2) = Some res \<and> requests res = Some reqs
             \<and> r \<in> set reqs \<and> requestId r = Some ''r2'')"
    by (auto simp: example_issues_def)
  have c: "i_resources (example_issues ! 1) = None"
    by (simp add: example_issues_def)
  have d: "\<exists>res. i_resources (example_issues ! 0) = Some res \<and> requests res = None"
    by (simp add: example_issues_def)
  have 1: "isAssociatedWithRequestId (example_issues ! 2) ''r1'' = Inr True"
    using isAssociatedWithRequestId_iff [of "example_issues ! 2" "''r1''"] a by blast
  have "isAssociatedWithRequestId (example_issues ! 2) ''r2'' \<noteq> Inr True"
    using isAssociatedWithRequestId_iff [of "example_issues ! 2" "''r2''"] b by blast
  moreover have "\<forall>e. isAssociatedWithRequestId (example_issues ! 2) ''r2'' \<noteq> Inl e"
    using isAssociatedWithRequestId_iff [of "example_issues ! 2" "''r2''"] by blast
  ultimately have 2: "isAssociatedWithRequestId (example_issues ! 2) ''r2'' = Inr False"
    by (cases "isAssociatedWithRequestId (example_issues ! 2) ''r2''") auto
  have 3: "isAssociatedWithRequestId (example_issues ! 1) ''r1'' = Inr False"
    using isAssociatedWithRequestId_iff [of "example_issues ! 1" "''r1''"] c by blast
  have 4: "isAssociatedWithRequestId (example_issues ! 0) ''r1'' = Inr False"
    using isAssociatedWithRequestId_iff [of "example_issues ! 0" "''r1''"] d by blast
  from 1 2 3 4 c d show ?thesis by blast
qed


section \<open>The visual logging driver (front\_end/ui/visual\_logging/LoggingDriver.ts)\<close>

subsection \<open>Throttlers\<close>

text \<open>
  The work that LoggingDriver.ts hands to a throttler: the arrow function of
  \<^verbatim>\<open>scheduleProcessing\<close> (which runs \<^verbatim>\<open>process\<close> through the render coordinator),
  \<^verbatim>\<open>cancelLogging\<close>, and the logging of a drag that \<^verbatim>\<open>logDrag\<close> schedules.
\<close>

datatype work = ProcessForLogging | CancelLogging | LogDrag

text \<open>
  Modelled from the spec: the class \<^verbatim>\<open>Common.Throttler.Throttler\<close> (core/common/Throttler.ts)
  is not among the sources. The spec speaks of throttled observation, where between two
  firings of the throttler any number of requests causes at most one run: a throttler
  built with an interval holds at most one pending piece of work, \<^verbatim>\<open>schedule\<close> replaces
  it, and when the throttler fires it runs the pending work, if any, and holds none
  afterwards. The \<^verbatim>\<open>noOpThrottler\<close> of LoggingDriver.ts is in the source: its \<^verbatim>\<open>schedule\<close>
  is \<^verbatim>\<open>async () => {}\<close> and does nothing.
\<close>

datatype throttler = NoOpThrottler | Throttler nat "work option"

fun schedule :: "work \<Rightarrow> throttler \<Rightarrow> throttler" where
  "schedule w NoOpThrottler = NoOpThrottler"
| "schedule w (Throttler interval p) = Throttler interval (Some w)"

fun pending :: "throttler \<Rightarrow> work option" where
  "pending NoOpThrottler = None"
| "pending (Throttler interval p) = p"

fun fired :: "throttler \<Rightarrow> throttler" where
  "fired NoOpThrottler = NoOpThrottler"
| "fired (Throttler interval p) = Throttler interval None"

definition PROCESS_DOM_INTERVAL :: nat where "PROCESS_DOM_INTERVAL = 500"
definition KEYBOARD_LOG_INTERVAL :: nat where "KEYBOARD_LOG_INTERVAL = 3000"
definition HOVER_LOG_INTERVAL :: nat where "HOVER_LOG_INTERVAL = 1000"
definition DRAG_LOG_INTERVAL :: nat where "DRAG_LOG_INTERVAL = 1250"
definition DRAG_REPORT_THRESHOLD :: int where "DRAG_REPORT_THRESHOLD = 50"
definition CLICK_LOG_INTERVAL :: nat where "CLICK_LOG_INTERVAL = 500"
definition RESIZE_LOG_INTERVAL :: nat where "RESIZE_LOG_INTERVAL = 1000"
definition RESIZE_REPORT_THRESHOLD :: int where "RESIZE_REPORT_THRESHOLD = 50"

subsection \<open>The state of the module and of the modules it imports\<close>

text \<open>
  DOM nodes, documents and loggables are objects, known by their identity \<open>ref\<close>.
  A \<^verbatim>\<open>Document\<close> is read for its \<^verbatim>\<open>body\<close> and its \<^verbatim>\<open>readyState\<close>.
\<close>

type_synonym ref = nat

record document =
  doc :: ref
  body :: ref
  readyState :: string

text \<open>
  The functions of the module that are passed around as callbacks without an event
  argument, and the event listeners that \<^verbatim>\<open>process\<close> installs.
\<close>

datatype callback = ScheduleProcessing | Process | CancelLoggingCallback

datatype listener =
    ScheduleProcessingListener
  | ClickLikeHandler bool
  | LogHover
  | HoverCancel
  | OnDragStart
  | MaybeCancelDrag
  | LogChange
  | KeyDownListener
  | OnSelectOpen
  | SelectKeyDown
  | SelectKeyPress
  | SelectChange

record observer =
  callback :: callback

text \<open>
  What the module does to the world outside it, in the order it does it: a new
  \<^verbatim>\<open>MutationObserver\<close> observing a root, the disconnection of the observer of a root, event
  listeners added and removed, resize and intersection observers, the debugging hooks,
  the run of the throttled work through the render coordinator, the impressions logged
  and the metric recorded at the end of \<^verbatim>\<open>process\<close>.
\<close>

datatype effect =
    ObserverAttached ref callback
  | ObserverDisconnected ref
  | AddEventListener ref string listener
  | RemoveEventListener ref string listener
  | NewResizeObserver ref
  | NewIntersectionObserver ref
  | ProcessStartLoggingForDebugging
  | ProcessForDebugging ref
  | RenderCoordinatorRead string
  | LogImpressions "ref list"
  | VisualLoggingProcessingDone

record rect =
  width :: int
  height :: int

record track =
  click :: bool
  dblclick :: bool
  hover :: bool
  drag :: bool
  change :: bool
  keydown :: bool
  resize :: bool

record loggingConfig =
  track :: "track option"

text \<open>
  The logging state of a loggable (LoggingState.ts). The field \<open>parent\<close> names the
  loggable whose logging state is the parent state.
\<close>

record loggingState =
  impressionLogged :: bool
  processed :: bool
  config :: loggingConfig
  parent :: "ref option"
  selectOpen :: bool
  ls_size :: "rect option"

text \<open>A registration of a non-DOM loggable (NonDomState.ts).\<close>

record registration =
  loggable :: ref
  reg_config :: loggingConfig
  reg_parent :: "ref option"

record driver =
  processingThrottler :: throttler
  keyboardLogThrottler :: throttler
  hoverLogThrottler :: throttler
  dragLogThrottler :: throttler
  clickLogThrottler :: throttler
  resizeLogThrottler :: throttler
  mutationObservers :: "ref \<rightharpoonup> observer"
  documents :: "document list"
  logging :: bool
  dragStartX :: int
  dragStartY :: int
  loggingStates :: "ref \<rightharpoonup> loggingState"
  nonDomLoggables :: "registration list"
  effects :: "effect list"

text \<open>The module as it is loaded.\<close>

definition initial :: driver where
  "initial =
     \<lparr>processingThrottler = NoOpThrottler, keyboardLogThrottler = NoOpThrottler,
      hoverLogThrottler = NoOpThrottler, dragLogThrottler = NoOpThrottler,
      clickLogThrottler = NoOpThrottler, resizeLogThrottler = NoOpThrottler,
      mutationObservers = Map.empty, documents = [], logging = False,
      dragStartX = 0, dragStartY = 0,
      loggingStates = Map.empty, nonDomLoggables = [], effects = []\<rparr>"

text \<open>
  What a run of \<^verbatim>\<open>process\<close> reads from the browser: \<^verbatim>\<open>document.hidden\<close>, the global
  document, the result of \<^verbatim>\<open>getDomState(documents)\<close>, and for an element its tag name, its
  logging configuration and its visible overlap with the viewport of its document
  (\<open>None\<close> for \<^verbatim>\<open>null\<close>).
\<close>

record dom =
  hidden :: bool
  global_document :: ref
  dom_loggables :: "(ref \<times> ref option) list"
  shadowRoots :: "ref list"
  tagName :: "ref \<Rightarrow> string"
  getLoggingConfig :: "ref \<Rightarrow> loggingConfig"
  visibleOverlap :: "ref \<Rightarrow> rect option"

subsection \<open>observeMutations, scheduleProcessing\<close>

definition observeMutations_root :: "ref \<Rightarrow> driver \<Rightarrow> driver" where
  "observeMutations_root root st =
     (if mutationObservers st root = None
      then st\<lparr>mutationObservers := (mutationObservers st)(root \<mapsto> \<lparr>callback = ScheduleProcessing\<rparr>),
              effects := effects st @ [ObserverAttached root ScheduleProcessing]\<rparr>
      else st)"

definition observeMutations :: "ref list \<Rightarrow> driver \<Rightarrow> driver" where
  "observeMutations roots st = fold observeMutations_root roots st"


text \<open>
  \<^verbatim>\<open>processingThrottler\<close> always holds a throttler object, so the guard
  \<^verbatim>\<open>if (!processingThrottler) return\<close> never returns.
\<close>

definition scheduleProcessing :: "driver \<Rightarrow> driver" where
  "scheduleProcessing st =
     st\<lparr>processingThrottler := schedule ProcessForLogging (processingThrottler st)\<rparr>"


subsection \<open>process\<close>

text \<open>
  Modelled from the spec: \<^verbatim>\<open>getOrCreateLoggingState\<close> of LoggingState.ts, which is not
  among the sources. A loggable has at most one logging state; it is created on the
  first request, with no impression logged and not processed, and later requests return
  it as it is.
\<close>

definition getOrCreateLoggingState ::
  "ref \<Rightarrow> loggingConfig \<Rightarrow> ref option \<Rightarrow> (ref \<rightharpoonup> loggingState) \<Rightarrow>
   loggingState \<times> (ref \<rightharpoonup> loggingState)" where
  "getOrCreateLoggingState l cfg par states =
     (case states l of
        Some ls \<Rightarrow> (ls, states)
      | None \<Rightarrow>
          (let ls = \<lparr>impressionLogged = False, processed = False, config = cfg, parent = par,
                     selectOpen = False, ls_size = None\<rparr>
           in (ls, states(l \<mapsto> ls))))"

text \<open>\<^verbatim>\<open>loggingState.parent?.selectOpen\<close> and \<^verbatim>\<open>loggingState.parent?.impressionLogged\<close>.\<close>

definition parent_selectOpen :: "(ref \<rightharpoonup> loggingState) \<Rightarrow> loggingState \<Rightarrow> bool" where
  "parent_selectOpen states ls =
     (case parent ls of
        None \<Rightarrow> False
      | Some p \<Rightarrow> (case states p of None \<Rightarrow> False | Some pls \<Rightarrow> selectOpen pls))"

definition parent_impressionLogged :: "(ref \<rightharpoonup> loggingState) \<Rightarrow> loggingState \<Rightarrow> bool" where
  "parent_impressionLogged states ls =
     (case parent ls of
        None \<Rightarrow> False
      | Some p \<Rightarrow> (case states p of None \<Rightarrow> False | Some pls \<Rightarrow> impressionLogged pls))"

text \<open>\<^verbatim>\<open>loggingState.config.track?.click\<close> and its like.\<close>

definition tracks :: "(track \<Rightarrow> bool) \<Rightarrow> loggingState \<Rightarrow> bool" where
  "tracks what ls = (case track (config ls) of None \<Rightarrow> False | Some t \<Rightarrow> what t)"

text \<open>
  The listeners and observers that \<^verbatim>\<open>process\<close> installs on an element that has not been
  processed yet, in the order of the source.
\<close>

definition install_handlers :: "dom \<Rightarrow> ref \<Rightarrow> loggingState \<Rightarrow> effect list" where
  "install_handlers d element ls =
     (if tracks click ls
      then [AddEventListener element ''click'' (ClickLikeHandler False),
            AddEventListener element ''contextmenu'' (ClickLikeHandler False)]
      else [])
   @ (if tracks dblclick ls then [AddEventListener element ''dblclick'' (ClickLikeHandler True)] else [])
   @ (if tracks hover ls
      then [AddEventListener element ''mouseover'' LogHover,
            AddEventListener element ''mouseout'' HoverCancel]
      else [])
   @ (if tracks drag ls
      then [AddEventListener element ''pointerdown'' OnDragStart,
            AddEventListener (global_document d) ''pointerup'' MaybeCancelDrag,
            AddEventListener (global_document d) ''dragend'' MaybeCancelDrag]
      else [])
   @ (if tracks change ls then [AddEventListener element ''change'' LogChange] else [])
   @ (if tracks keydown ls then [AddEventListener element ''keydown'' KeyDownListener] else [])
   @ (if tracks resize ls then [NewResizeObserver element, NewIntersectionObserver element] else [])
   @ (if tagName d element = ''SELECT''
      then [AddEventListener element ''click'' OnSelectOpen,
            AddEventListener element ''keydown'' SelectKeyDown,
            AddEventListener element ''keypress'' SelectKeyPress,
            AddEventListener element ''change'' SelectChange]
      else [])"

text \<open>
  The body of the first loop of \<^verbatim>\<open>process\<close>, for one \<^verbatim>\<open>{element, parent}\<close> of the DOM
  state. The first component of the pair is the array \<^verbatim>\<open>visibleLoggables\<close>.
\<close>

definition process_dom_loggable ::
  "dom \<Rightarrow> ref \<times> ref option \<Rightarrow> ref list \<times> driver \<Rightarrow> ref list \<times> driver" where
  "process_dom_loggable d ep s =
     (let element = fst ep;
          visibleLoggables = fst s;
          st = snd s;
          created = getOrCreateLoggingState element (getLoggingConfig d element) (snd ep)
                      (loggingStates st);
          ls0 = fst created;
          states = snd created;
          overlap = visibleOverlap d element;
          visibleSelectOption = (tagName d element = ''OPTION'' \<and> parent_selectOpen states ls0);
          impression = (\<not> impressionLogged ls0 \<and> (overlap \<noteq> None \<or> visibleSelectOption));
          ls1 = (if impression
                 then ls0\<lparr>ls_size := (if overlap \<noteq> None then overlap else ls_size ls0),
                          impressionLogged := True\<rparr>
                 else ls0);
          installed = (if \<not> processed ls1 then install_handlers d element ls1 else []);
          ls2 = (if \<not> processed ls1 then ls1\<lparr>processed := True\<rparr> else ls1)
      in (if impression then visibleLoggables @ [element] else visibleLoggables,
          st\<lparr>loggingStates := states(element \<mapsto> ls2),
             effects := effects st @ installed @ [ProcessForDebugging element]\<rparr>))"

text \<open>
  Modelled from the spec: \<^verbatim>\<open>unregisterLoggable\<close> and \<^verbatim>\<open>unregisterAllLoggables\<close> of
  NonDomState.ts, which is not among the sources: the first takes the registration of
  one loggable out of the registry that \<^verbatim>\<open>getNonDomState().loggables\<close> lists, the second
  empties the registry.
\<close>

definition unregisterLoggable :: "ref \<Rightarrow> registration list \<Rightarrow> registration list" where
  "unregisterLoggable l registry = filter (\<lambda>r. loggable r \<noteq> l) registry"

definition unregisterAllLoggables :: "registration list \<Rightarrow> registration list" where
  "unregisterAllLoggables registry = []"

text \<open>The body of the second loop of \<^verbatim>\<open>process\<close>, for one registration.\<close>

definition process_non_dom_loggable ::
  "registration \<Rightarrow> ref list \<times> driver \<Rightarrow> ref list \<times> driver" where
  "process_non_dom_loggable r s =
     (let visibleLoggables = fst s;
          st = snd s;
          created = getOrCreateLoggingState (loggable r) (reg_config r) (reg_parent r)
                      (loggingStates st);
          ls = fst created;
          states = snd created;
          visible = (reg_parent r = None \<or> parent_impressionLogged states ls)
      in if \<not> visible then (visibleLoggables, st\<lparr>loggingStates := states\<rparr>)
         else (visibleLoggables @ [loggable r],
               st\<lparr>loggingStates := states(loggable r \<mapsto> ls\<lparr>impressionLogged := True\<rparr>),
                  nonDomLoggables := unregisterLoggable (loggable r) (nonDomLoggables st),
                  effects := effects st @ [ProcessForDebugging (loggable r)]\<rparr>))"

text \<open>
  \<^verbatim>\<open>process\<close>. The second loop runs over the array that \<^verbatim>\<open>getNonDomState().loggables\<close>
  returned when the loop started.
\<close>

definition process :: "dom \<Rightarrow> driver \<Rightarrow> driver" where
  "process d st =
     (if hidden d then st
      else
        (let st1 = observeMutations (shadowRoots d) st;
             s2 = fold (process_dom_loggable d) (dom_loggables d) ([], st1);
             s3 = fold process_non_dom_loggable (nonDomLoggables (snd s2)) s2;
             st3 = snd s3
         in st3\<lparr>effects := effects st3 @ [LogImpressions (fst s3), VisualLoggingProcessingDone]\<rparr>))"

subsection \<open>startLogging, addDocument, stopLogging\<close>

record options =
  o_processingThrottler :: "throttler option"
  o_keyboardLogThrottler :: "throttler option"
  o_hoverLogThrottler :: "throttler option"
  o_dragLogThrottler :: "throttler option"
  o_clickLogThrottler :: "throttler option"
  o_resizeLogThrottler :: "throttler option"

text \<open>\<^verbatim>\<open>options?.field || new Common.Throttler.Throttler(interval)\<close>.\<close>

definition option_or_new ::
  "options option \<Rightarrow> (options \<Rightarrow> throttler option) \<Rightarrow> nat \<Rightarrow> throttler" where
  "option_or_new opts field interval =
     (case opts of
        None \<Rightarrow> Throttler interval None
      | Some os \<Rightarrow> (case field os of None \<Rightarrow> Throttler interval None | Some t \<Rightarrow> t))"

definition addDocument :: "document \<Rightarrow> dom \<Rightarrow> driver \<Rightarrow> driver" where
  "addDocument document d st =
     (let st1 = st\<lparr>documents := documents st @ [document]\<rparr>;
          st2 = (if readyState document \<in> set [''interactive'', ''complete'']
                 then process d st1 else st1);
          st3 = st2\<lparr>effects := effects st2 @
                  [AddEventListener (doc document) ''visibilitychange'' ScheduleProcessingListener,
                   AddEventListener (doc document) ''scroll'' ScheduleProcessingListener]\<rparr>
      in observeMutations [body document] st3)"

definition startLogging :: "options option \<Rightarrow> document \<Rightarrow> dom \<Rightarrow> driver \<Rightarrow> driver" where
  "startLogging opts document d st =
     (let st1 = st\<lparr>logging := True,
                   processingThrottler := option_or_new opts o_processingThrottler PROCESS_DOM_INTERVAL,
                   keyboardLogThrottler := option_or_new opts o_keyboardLogThrottler KEYBOARD_LOG_INTERVAL,
                   hoverLogThrottler := option_or_new opts o_hoverLogThrottler HOVER_LOG_INTERVAL,
                   dragLogThrottler := option_or_new opts o_dragLogThrottler DRAG_LOG_INTERVAL,
                   clickLogThrottler := option_or_new opts o_clickLogThrottler CLICK_LOG_INTERVAL,
                   resizeLogThrottler := option_or_new opts o_resizeLogThrottler RESIZE_LOG_INTERVAL\<rparr>;
          st2 = st1\<lparr>effects := effects st1 @ [ProcessStartLoggingForDebugging]\<rparr>
      in addDocument document d st2)"

text \<open>
  \<^verbatim>\<open>mutationObservers.get(node)?.disconnect(); mutationObservers.delete(node)\<close>, and the
  body of the loop of \<^verbatim>\<open>stopLogging\<close> over the documents.
\<close>

definition disconnect_and_delete :: "ref \<Rightarrow> driver \<Rightarrow> driver" where
  "disconnect_and_delete node st =
     (let st1 = (case mutationObservers st node of
                   None \<Rightarrow> st
                 | Some obs \<Rightarrow> st\<lparr>effects := effects st @ [ObserverDisconnected node]\<rparr>)
      in st1\<lparr>mutationObservers := (mutationObservers st1)(node := None)\<rparr>)"

definition stopLogging_document :: "document \<Rightarrow> driver \<Rightarrow> driver" where
  "stopLogging_document document st =
     disconnect_and_delete (body document)
       (st\<lparr>effects := effects st @
            [RemoveEventListener (doc document) ''visibilitychange'' ScheduleProcessingListener,
             RemoveEventListener (doc document) ''scroll'' ScheduleProcessingListener]\<rparr>)"

text \<open>
  \<^verbatim>\<open>stopLogging\<close>; its argument is the list of shadow roots that \<^verbatim>\<open>getDomState(documents)\<close>
  finds when it is called.
\<close>

definition stopLogging :: "ref list \<Rightarrow> driver \<Rightarrow> driver" where
  "stopLogging roots st =
     (let st1 = st\<lparr>logging := False,
                   nonDomLoggables := unregisterAllLoggables (nonDomLoggables st)\<rparr>;
          st2 = fold stopLogging_document (documents st1) st1;
          st3 = fold disconnect_and_delete roots st2
      in st3\<lparr>documents := [], processingThrottler := NoOpThrottler\<rparr>)"

subsection \<open>Dragging\<close>

text \<open>
  An event is a \<^verbatim>\<open>MouseEvent\<close> with its screen position, or an event of another class.
  Screen coordinates are integers here.

  Modelled from the spec: \<^verbatim>\<open>logDrag\<close> of LoggingEvents.ts, which is not among the sources,
  schedules the log of the drag on the throttler it is given; this is the pending drag
  log that the cancellation replaces.
\<close>

datatype event = MouseEvent int int | OtherEvent

definition logDrag :: "throttler \<Rightarrow> throttler" where
  "logDrag t = schedule LogDrag t"

fun onDragStart :: "event \<Rightarrow> driver \<Rightarrow> driver" where
  "onDragStart OtherEvent st = st"
| "onDragStart (MouseEvent screenX screenY) st =
     st\<lparr>dragStartX := screenX, dragStartY := screenY,
        dragLogThrottler := logDrag (dragLogThrottler st)\<rparr>"

fun maybeCancelDrag :: "event \<Rightarrow> driver \<Rightarrow> driver" where
  "maybeCancelDrag OtherEvent st = st"
| "maybeCancelDrag (MouseEvent screenX screenY) st =
     (if \<bar>screenX - dragStartX st\<bar> \<ge> DRAG_REPORT_THRESHOLD
         \<or> \<bar>screenY - dragStartY st\<bar> \<ge> DRAG_REPORT_THRESHOLD
      then st
      else st\<lparr>dragLogThrottler := schedule CancelLogging (dragLogThrottler st)\<rparr>)"

subsection \<open>The browser calling back\<close>

text \<open>
  A callback of the module, called by the browser. \<^verbatim>\<open>cancelLogging\<close> has an empty body.
\<close>

fun invoke :: "callback \<Rightarrow> dom \<Rightarrow> driver \<Rightarrow> driver" where
  "invoke ScheduleProcessing d st = scheduleProcessing st"
| "invoke Process d st = process d st"
| "invoke CancelLoggingCallback d st = st"

text \<open>
  A mutation under a node is delivered to the observer that \<^verbatim>\<open>mutationObservers\<close> holds
  for it (the observers the module has attached and not disconnected), by a call of the
  observer's callback.
\<close>

definition mutation :: "ref \<Rightarrow> dom \<Rightarrow> driver \<Rightarrow> driver" where
  "mutation node d st =
     (case mutationObservers st node of
        None \<Rightarrow> st
      | Some obs \<Rightarrow> invoke (callback obs) d st)"

text \<open>
  The processing throttler fires: the pending work, if any, runs. The work that
  \<^verbatim>\<open>scheduleProcessing\<close> schedules asks the render coordinator for a read named
  \<^verbatim>\<open>processForLogging\<close>, which runs \<^verbatim>\<open>process\<close>.
\<close>

fun run_work :: "work \<Rightarrow> dom \<Rightarrow> driver \<Rightarrow> driver" where
  "run_work ProcessForLogging d st =
     process d (st\<lparr>effects := effects st @ [RenderCoordinatorRead ''processForLogging'']\<rparr>)"
| "run_work CancelLogging d st = st"
| "run_work LogDrag d st = st"

definition processingThrottler_fires :: "dom \<Rightarrow> driver \<Rightarrow> driver" where
  "processingThrottler_fires d st =
     (case pending (processingThrottler st) of
        None \<Rightarrow> st
      | Some w \<Rightarrow> run_work w d (st\<lparr>processingThrottler := fired (processingThrottler st)\<rparr>))"


subsection \<open>The module as a state machine\<close>

text \<open>
  What can happen to the module: calls of its exported functions, the browser
  delivering a mutation under a node or a pointer event to the drag listeners, and the
  processing throttler firing.
\<close>

datatype input =
    StartLogging "options option" document dom
  | AddDocument document dom
  | StopLogging "ref list"
  | ScheduleProcessingCall
  | Mutation ref dom
  | ProcessingThrottlerFires dom
  | PointerDown event
  | PointerUpOrDragEnd event

fun step :: "input \<Rightarrow> driver \<Rightarrow> driver" where
  "step (StartLogging opts document d) st = startLogging opts document d st"
| "step (AddDocument document d) st = addDocument document d st"
| "step (StopLogging roots) st = stopLogging roots st"
| "step ScheduleProcessingCall st = scheduleProcessing st"
| "step (Mutation node d) st = mutation node d st"
| "step (ProcessingThrottlerFires d) st = processingThrottler_fires d st"
| "step (PointerDown e) st = onDragStart e st"
| "step (PointerUpOrDragEnd e) st = maybeCancelDrag e st"

definition run :: "input list \<Rightarrow> driver \<Rightarrow> driver" where
  "run inputs st = fold step inputs st"

text \<open>Counting in the effects: observers attached to a node, and runs of the throttled work.\<close>

fun is_attached :: "ref \<Rightarrow> effect \<Rightarrow> bool" where
  "is_attached node (ObserverAttached r cb) = (r = node)"
| "is_attached node e = False"

fun is_disconnected :: "ref \<Rightarrow> effect \<Rightarrow> bool" where
  "is_disconnected node (ObserverDisconnected r) = (r = node)"
| "is_disconnected node e = False"

definition attached_count :: "ref \<Rightarrow> effect list \<Rightarrow> nat" where
  "attached_count node es = length (filter (is_attached node) es)"

definition disconnected_count :: "ref \<Rightarrow> effect list \<Rightarrow> nat" where
  "disconnected_count node es = length (filter (is_disconnected node) es)"

definition processing_runs :: "effect list \<Rightarrow> nat" where
  "processing_runs es = count_list es (RenderCoordinatorRead ''processForLogging'')"

text \<open>The loggables passed to \<^verbatim>\<open>logImpressions\<close>, over all its calls, in order.\<close>

fun impressions :: "effect list \<Rightarrow> ref list" where
  "impressions [] = []"
| "impressions (LogImpressions ls # es) = ls @ impressions es"
| "impressions (e # es) = impressions es"



subsection \<open>A concrete page\<close>

text \<open>
  Concrete data for the examples below: a document that has finished loading, with a
  \<^verbatim>\<open>select\<close> element (10), one of its options (11) and an element outside the viewport (12),
  and one shadow root (20); logging started with no options; and three mutations, two
  under the body of the document and one under the shadow root.
\<close>

definition example_config :: loggingConfig where
  "example_config = \<lparr>track = Some \<lparr>click = True, dblclick = False, hover = False, drag = True,
                                    change = False, keydown = False, resize = False\<rparr>\<rparr>"

definition example_dom :: dom where
  "example_dom =
     \<lparr>hidden = False, global_document = 0,
      dom_loggables = [(10, None), (11, Some 10), (12, None)],
      shadowRoots = [20],
      tagName = (\<lambda>e. if e = 10 then ''SELECT'' else if e = 11 then ''OPTION'' else ''DIV''),
      getLoggingConfig = (\<lambda>e. example_config),
      visibleOverlap = (\<lambda>e. if e = 12 then None else Some \<lparr>width = 100, height = 20\<rparr>)\<rparr>"

definition example_document :: document where
  "example_document = \<lparr>doc = 0, body = 1, readyState = ''complete''\<rparr>"

definition example_started :: driver where
  "example_started = startLogging None example_document example_dom initial"

definition example_mutations :: "(ref \<times> dom) list" where
  "example_mutations = [(1, example_dom), (20, example_dom), (1, example_dom)]"




definition example_drag_start :: driver where
  "example_drag_start = initial\<lparr>logging := True, dragLogThrottler := Throttler DRAG_LOG_INTERVAL None\<rparr>"

subsection \<open>Notions used in the proofs\<close>

text \<open>
  Effects that are neither an observer attached or disconnected, nor a run of the
  throttled work, nor impressions logged.
\<close>

fun neutral :: "effect \<Rightarrow> bool" where
  "neutral (ObserverAttached r cb) = False"
| "neutral (ObserverDisconnected r) = False"
| "neutral (RenderCoordinatorRead n) = False"
| "neutral (LogImpressions ls) = False"
| "neutral e = True"


text \<open>A step that leaves the module's own variables alone and has only such effects.\<close>

definition quiet_step :: "driver \<Rightarrow> driver \<Rightarrow> bool" where
  "quiet_step st st' =
     (processingThrottler st' = processingThrottler st
      \<and> keyboardLogThrottler st' = keyboardLogThrottler st
      \<and> hoverLogThrottler st' = hoverLogThrottler st
      \<and> dragLogThrottler st' = dragLogThrottler st
      \<and> clickLogThrottler st' = clickLogThrottler st
      \<and> resizeLogThrottler st' = resizeLogThrottler st
      \<and> mutationObservers st' = mutationObservers st
      \<and> documents st' = documents st
      \<and> logging st' = logging st
      \<and> dragStartX st' = dragStartX st
      \<and> dragStartY st' = dragStartY st
      \<and> (\<exists>es. list_all neutral es \<and> effects st' = effects st @ es))"


text \<open>The observers in the map are those attached and not disconnected.\<close>

definition observers_live :: "driver \<Rightarrow> bool" where
  "observers_live st =
     (\<forall>r. attached_count r (effects st) =
            disconnected_count r (effects st) + (if mutationObservers st r = None then 0 else 1))"


text \<open>All observers call back \<^verbatim>\<open>scheduleProcessing\<close>.\<close>

definition callbacks_schedule :: "driver \<Rightarrow> bool" where
  "callbacks_schedule st =
     (\<forall>node obs. mutationObservers st node = Some obs \<longrightarrow> callback obs = ScheduleProcessing)"



definition driver_invariant :: "driver \<Rightarrow> bool" where
  "driver_invariant st = (observers_live st \<and> callbacks_schedule st)"


fun is_Fires :: "input \<Rightarrow> bool" where
  "is_Fires (ProcessingThrottlerFires d) = True"
| "is_Fires i = False"


subsection \<open>Lemmas about effects and observeMutations\<close>

lemma fold_invariant:
  assumes "P s" and "\<And>x s. x \<in> set xs \<Longrightarrow> P s \<Longrightarrow> P (f x s)"
  shows "P (fold f xs s)"
  using assms by (induction xs arbitrary: s) auto

lemma attached_count_append [simp]:
  "attached_count r (xs @ ys) = attached_count r xs + attached_count r ys"
  by (simp add: attached_count_def)

lemma disconnected_count_append [simp]:
  "disconnected_count r (xs @ ys) = disconnected_count r xs + disconnected_count r ys"
  by (simp add: disconnected_count_def)

lemma processing_runs_append [simp]:
  "processing_runs (xs @ ys) = processing_runs xs + processing_runs ys"
  by (simp add: processing_runs_def)

lemma impressions_append [simp]: "impressions (xs @ ys) = impressions xs @ impressions ys"
  by (induction xs rule: impressions.induct) simp_all

lemma neutral_counts:
  "list_all neutral es \<Longrightarrow>
     attached_count r es = 0 \<and> disconnected_count r es = 0 \<and> processing_runs es = 0
     \<and> impressions es = []"
proof (induction es)
  case Nil
  show ?case by (simp add: attached_count_def disconnected_count_def processing_runs_def)
next
  case (Cons e es)
  then show ?case
    by (cases e) (simp_all add: attached_count_def disconnected_count_def processing_runs_def)
qed

lemma install_handlers_neutral: "list_all neutral (install_handlers d element ls)"
  by (simp add: install_handlers_def)

subsection \<open>Lemmas about the observers\<close>








lemma observers_live_initial: "observers_live initial"
  by (simp add: observers_live_def initial_def attached_count_def disconnected_count_def)

lemma observeMutations_root_live:
  "observers_live st \<Longrightarrow> observers_live (observeMutations_root root st)"
  by (auto simp: observers_live_def observeMutations_root_def attached_count_def
        disconnected_count_def)

lemma observeMutations_live:
  "observers_live st \<Longrightarrow> observers_live (observeMutations roots st)"
  unfolding observeMutations_def
  by (rule fold_invariant) (simp_all add: observeMutations_root_live)


subsection \<open>Lemmas about process\<close>

lemma quiet_step_refl: "quiet_step st st"
  by (simp add: quiet_step_def)

lemma quiet_step_trans:
  assumes ab: "quiet_step a b" and bc: "quiet_step b c"
  shows "quiet_step a c"
proof -
  from ab obtain es where es: "list_all neutral es" "effects b = effects a @ es"
    unfolding quiet_step_def by blast
  from bc obtain fs where fs: "list_all neutral fs" "effects c = effects b @ fs"
    unfolding quiet_step_def by blast
  have "list_all neutral (es @ fs) \<and> effects c = effects a @ (es @ fs)"
    using es fs by simp
  then have "\<exists>gs. list_all neutral gs \<and> effects c = effects a @ gs" by blast
  with ab bc show ?thesis unfolding quiet_step_def by simp
qed

lemma process_dom_loggable_quiet: "quiet_step (snd s) (snd (process_dom_loggable d ep s))"
  by (simp add: process_dom_loggable_def quiet_step_def Let_def install_handlers_neutral)

lemma process_non_dom_loggable_quiet: "quiet_step (snd s) (snd (process_non_dom_loggable r s))"
  by (simp add: process_non_dom_loggable_def quiet_step_def Let_def)

lemma fold_quiet:
  assumes "\<And>x s. quiet_step (snd s) (snd (f x s))"
  shows "quiet_step (snd s) (snd (fold f xs s))"
proof (induction xs arbitrary: s)
  case Nil
  show ?case by (simp add: quiet_step_refl)
next
  case (Cons x xs)
  from assms[of s x] Cons[of "f x s"] show ?case
    by (simp add: quiet_step_trans)
qed

lemma observeMutations_root_frame:
  "processingThrottler (observeMutations_root root st) = processingThrottler st
   \<and> keyboardLogThrottler (observeMutations_root root st) = keyboardLogThrottler st
   \<and> hoverLogThrottler (observeMutations_root root st) = hoverLogThrottler st
   \<and> dragLogThrottler (observeMutations_root root st) = dragLogThrottler st
   \<and> clickLogThrottler (observeMutations_root root st) = clickLogThrottler st
   \<and> resizeLogThrottler (observeMutations_root root st) = resizeLogThrottler st
   \<and> documents (observeMutations_root root st) = documents st
   \<and> logging (observeMutations_root root st) = logging st
   \<and> dragStartX (observeMutations_root root st) = dragStartX st
   \<and> dragStartY (observeMutations_root root st) = dragStartY st
   \<and> loggingStates (observeMutations_root root st) = loggingStates st
   \<and> nonDomLoggables (observeMutations_root root st) = nonDomLoggables st
   \<and> processing_runs (effects (observeMutations_root root st)) = processing_runs (effects st)
   \<and> disconnected_count r (effects (observeMutations_root root st)) = disconnected_count r (effects st)
   \<and> impressions (effects (observeMutations_root root st)) = impressions (effects st)"
  by (simp add: observeMutations_root_def processing_runs_def disconnected_count_def)

lemma observeMutations_frame:
  "processingThrottler (observeMutations roots st) = processingThrottler st
   \<and> keyboardLogThrottler (observeMutations roots st) = keyboardLogThrottler st
   \<and> hoverLogThrottler (observeMutations roots st) = hoverLogThrottler st
   \<and> dragLogThrottler (observeMutations roots st) = dragLogThrottler st
   \<and> clickLogThrottler (observeMutations roots st) = clickLogThrottler st
   \<and> resizeLogThrottler (observeMutations roots st) = resizeLogThrottler st
   \<and> documents (observeMutations roots st) = documents st
   \<and> logging (observeMutations roots st) = logging st
   \<and> dragStartX (observeMutations roots st) = dragStartX st
   \<and> dragStartY (observeMutations roots st) = dragStartY st
   \<and> loggingStates (observeMutations roots st) = loggingStates st
   \<and> nonDomLoggables (observeMutations roots st) = nonDomLoggables st
   \<and> processing_runs (effects (observeMutations roots st)) = processing_runs (effects st)
   \<and> disconnected_count r (effects (observeMutations roots st)) = disconnected_count r (effects st)
   \<and> impressions (effects (observeMutations roots st)) = impressions (effects st)"
  unfolding observeMutations_def
proof (induction roots arbitrary: st)
  case Nil
  show ?case by simp
next
  case (Cons root roots)
  show ?case
    using Cons[of "observeMutations_root root st"] observeMutations_root_frame[of root st r]
    by simp
qed

lemma observeMutations_root_callbacks:
  "callbacks_schedule st \<Longrightarrow> callbacks_schedule (observeMutations_root root st)"
  by (simp add: callbacks_schedule_def observeMutations_root_def)

lemma observeMutations_callbacks:
  "callbacks_schedule st \<Longrightarrow> callbacks_schedule (observeMutations roots st)"
  unfolding observeMutations_def
  by (rule fold_invariant) (simp_all add: observeMutations_root_callbacks)

text \<open>process, taken apart.\<close>

lemma process_hidden: "hidden d \<Longrightarrow> process d st = st"
  by (simp add: process_def)

lemma process_shape:
  assumes "\<not> hidden d"
  shows "\<exists>mid vs. quiet_step (observeMutations (shadowRoots d) st) mid
           \<and> process d st = mid\<lparr>effects := effects mid @ [LogImpressions vs, VisualLoggingProcessingDone]\<rparr>"
proof -
  let ?st1 = "observeMutations (shadowRoots d) st"
  let ?s2 = "fold (process_dom_loggable d) (dom_loggables d) ([], ?st1)"
  let ?s3 = "fold process_non_dom_loggable (nonDomLoggables (snd ?s2)) ?s2"
  have "quiet_step (snd ([]::ref list, ?st1)) (snd ?s2)"
    by (rule fold_quiet) (rule process_dom_loggable_quiet)
  moreover have "quiet_step (snd ?s2) (snd ?s3)"
    by (rule fold_quiet) (rule process_non_dom_loggable_quiet)
  ultimately have "quiet_step ?st1 (snd ?s3)"
    using quiet_step_trans by fastforce
  moreover have "process d st =
      (snd ?s3)\<lparr>effects := effects (snd ?s3) @ [LogImpressions (fst ?s3), VisualLoggingProcessingDone]\<rparr>"
    using assms by (simp add: process_def Let_def)
  ultimately show ?thesis by blast
qed

lemma quiet_step_counts:
  assumes "quiet_step a b"
  shows "attached_count r (effects b) = attached_count r (effects a)"
    and "disconnected_count r (effects b) = disconnected_count r (effects a)"
    and "processing_runs (effects b) = processing_runs (effects a)"
    and "impressions (effects b) = impressions (effects a)"
proof -
  from assms obtain es where "list_all neutral es" and e: "effects b = effects a @ es"
    unfolding quiet_step_def by blast
  from neutral_counts[OF this(1), of r] e
  show "attached_count r (effects b) = attached_count r (effects a)"
    and "disconnected_count r (effects b) = disconnected_count r (effects a)"
    and "processing_runs (effects b) = processing_runs (effects a)"
    and "impressions (effects b) = impressions (effects a)"
    by simp_all
qed

lemma quiet_step_live: "quiet_step a b \<Longrightarrow> observers_live a \<Longrightarrow> observers_live b"
  unfolding observers_live_def
  by (simp add: quiet_step_counts) (simp add: quiet_step_def)

lemma quiet_step_callbacks: "quiet_step a b \<Longrightarrow> callbacks_schedule a \<Longrightarrow> callbacks_schedule b"
  by (simp add: callbacks_schedule_def quiet_step_def)

lemma tail_counts:
  "attached_count r [LogImpressions vs, VisualLoggingProcessingDone] = 0"
  "disconnected_count r [LogImpressions vs, VisualLoggingProcessingDone] = 0"
  "processing_runs [LogImpressions vs, VisualLoggingProcessingDone] = 0"
  by (simp_all add: attached_count_def disconnected_count_def processing_runs_def)

lemma process_frame:
  "processingThrottler (process d st) = processingThrottler st
   \<and> keyboardLogThrottler (process d st) = keyboardLogThrottler st
   \<and> hoverLogThrottler (process d st) = hoverLogThrottler st
   \<and> dragLogThrottler (process d st) = dragLogThrottler st
   \<and> clickLogThrottler (process d st) = clickLogThrottler st
   \<and> resizeLogThrottler (process d st) = resizeLogThrottler st
   \<and> documents (process d st) = documents st
   \<and> logging (process d st) = logging st
   \<and> dragStartX (process d st) = dragStartX st
   \<and> dragStartY (process d st) = dragStartY st
   \<and> processing_runs (effects (process d st)) = processing_runs (effects st)"
proof (cases "hidden d")
  case True
  then show ?thesis by (simp add: process_hidden)
next
  case False
  from process_shape[OF False, of st] obtain mid vs where
    q: "quiet_step (observeMutations (shadowRoots d) st) mid" and
    p: "process d st = mid\<lparr>effects := effects mid @ [LogImpressions vs, VisualLoggingProcessingDone]\<rparr>"
    by blast
  from q observeMutations_frame[of "shadowRoots d" st 0]
  have "processingThrottler mid = processingThrottler st
   \<and> keyboardLogThrottler mid = keyboardLogThrottler st
   \<and> hoverLogThrottler mid = hoverLogThrottler st
   \<and> dragLogThrottler mid = dragLogThrottler st
   \<and> clickLogThrottler mid = clickLogThrottler st
   \<and> resizeLogThrottler mid = resizeLogThrottler st
   \<and> documents mid = documents st
   \<and> logging mid = logging st
   \<and> dragStartX mid = dragStartX st
   \<and> dragStartY mid = dragStartY st"
    by (simp add: quiet_step_def)
  moreover have "processing_runs (effects mid) = processing_runs (effects st)"
    using quiet_step_counts(3)[OF q] observeMutations_frame[of "shadowRoots d" st 0] by simp
  ultimately show ?thesis
    unfolding p by (simp add: tail_counts)
qed

lemma process_live: "observers_live st \<Longrightarrow> observers_live (process d st)"
proof (cases "hidden d")
  case True
  assume "observers_live st"
  with True show ?thesis by (simp add: process_hidden)
next
  case False
  assume live: "observers_live st"
  from process_shape[OF False, of st] obtain mid vs where
    q: "quiet_step (observeMutations (shadowRoots d) st) mid" and
    p: "process d st = mid\<lparr>effects := effects mid @ [LogImpressions vs, VisualLoggingProcessingDone]\<rparr>"
    by blast
  from quiet_step_live[OF q observeMutations_live[OF live]] have "observers_live mid" .
  then show ?thesis
    unfolding p observers_live_def by (simp add: tail_counts)
qed

lemma process_callbacks: "callbacks_schedule st \<Longrightarrow> callbacks_schedule (process d st)"
proof (cases "hidden d")
  case True
  assume "callbacks_schedule st"
  with True show ?thesis by (simp add: process_hidden)
next
  case False
  assume cb: "callbacks_schedule st"
  from process_shape[OF False, of st] obtain mid vs where
    q: "quiet_step (observeMutations (shadowRoots d) st) mid" and
    p: "process d st = mid\<lparr>effects := effects mid @ [LogImpressions vs, VisualLoggingProcessingDone]\<rparr>"
    by blast
  from quiet_step_callbacks[OF q observeMutations_callbacks[OF cb]] have "callbacks_schedule mid" .
  then show ?thesis
    unfolding p callbacks_schedule_def by simp
qed

lemma driver_invariant_cong:
  "effects st' = effects st \<Longrightarrow> mutationObservers st' = mutationObservers st \<Longrightarrow>
     driver_invariant st' = driver_invariant st"
  by (simp add: driver_invariant_def observers_live_def callbacks_schedule_def)

lemma driver_invariant_neutral:
  assumes "driver_invariant st" "list_all neutral es"
  shows "driver_invariant (st\<lparr>effects := effects st @ es\<rparr>)"
  using assms neutral_counts[OF assms(2)]
  by (simp add: driver_invariant_def observers_live_def callbacks_schedule_def)

lemma driver_invariant_initial: "driver_invariant initial"
  by (simp add: driver_invariant_def observers_live_initial) (simp add: callbacks_schedule_def initial_def)

lemma driver_invariant_process: "driver_invariant st \<Longrightarrow> driver_invariant (process d st)"
  by (simp add: driver_invariant_def process_live process_callbacks)

lemma driver_invariant_observeMutations:
  "driver_invariant st \<Longrightarrow> driver_invariant (observeMutations roots st)"
  by (simp add: driver_invariant_def observeMutations_live observeMutations_callbacks)

lemma driver_invariant_addDocument:
  assumes "driver_invariant st"
  shows "driver_invariant (addDocument document d st)"
proof -
  let ?st1 = "st\<lparr>documents := documents st @ [document]\<rparr>"
  let ?st2 = "if readyState document \<in> set [''interactive'', ''complete''] then process d ?st1 else ?st1"
  have 1: "driver_invariant ?st1" using assms driver_invariant_cong[of ?st1 st] by simp
  then have 2: "driver_invariant ?st2" by (simp add: driver_invariant_process)
  have "driver_invariant (?st2\<lparr>effects := effects ?st2 @
          [AddEventListener (doc document) ''visibilitychange'' ScheduleProcessingListener,
           AddEventListener (doc document) ''scroll'' ScheduleProcessingListener]\<rparr>)"
    by (rule driver_invariant_neutral[OF 2]) simp
  then show ?thesis
    unfolding addDocument_def Let_def by (rule driver_invariant_observeMutations)
qed

lemma driver_invariant_startLogging:
  assumes "driver_invariant st"
  shows "driver_invariant (startLogging opts document d st)"
proof -
  let ?st1 = "st\<lparr>logging := True,
                   processingThrottler := option_or_new opts o_processingThrottler PROCESS_DOM_INTERVAL,
                   keyboardLogThrottler := option_or_new opts o_keyboardLogThrottler KEYBOARD_LOG_INTERVAL,
                   hoverLogThrottler := option_or_new opts o_hoverLogThrottler HOVER_LOG_INTERVAL,
                   dragLogThrottler := option_or_new opts o_dragLogThrottler DRAG_LOG_INTERVAL,
                   clickLogThrottler := option_or_new opts o_clickLogThrottler CLICK_LOG_INTERVAL,
                   resizeLogThrottler := option_or_new opts o_resizeLogThrottler RESIZE_LOG_INTERVAL\<rparr>"
  have 1: "driver_invariant ?st1" using assms driver_invariant_cong[of ?st1 st] by simp
  have "driver_invariant (?st1\<lparr>effects := effects ?st1 @ [ProcessStartLoggingForDebugging]\<rparr>)"
    by (rule driver_invariant_neutral[OF 1]) simp
  then show ?thesis
    unfolding startLogging_def Let_def by (rule driver_invariant_addDocument)
qed

lemma driver_invariant_disconnect_and_delete:
  assumes "driver_invariant st"
  shows "driver_invariant (disconnect_and_delete node st)"
proof (cases "mutationObservers st node")
  case None
  with assms show ?thesis
    by (auto simp: disconnect_and_delete_def driver_invariant_def observers_live_def
          callbacks_schedule_def)
next
  case (Some obs)
  with assms show ?thesis
    by (auto simp: disconnect_and_delete_def driver_invariant_def observers_live_def
          callbacks_schedule_def attached_count_def disconnected_count_def)
qed

lemma driver_invariant_stopLogging_document:
  assumes "driver_invariant st"
  shows "driver_invariant (stopLogging_document document st)"
  unfolding stopLogging_document_def
  by (rule driver_invariant_disconnect_and_delete, rule driver_invariant_neutral[OF assms]) simp

lemma driver_invariant_stopLogging:
  assumes "driver_invariant st"
  shows "driver_invariant (stopLogging roots st)"
proof -
  let ?st1 = "st\<lparr>logging := False, nonDomLoggables := unregisterAllLoggables (nonDomLoggables st)\<rparr>"
  let ?st2 = "fold stopLogging_document (documents ?st1) ?st1"
  let ?st3 = "fold disconnect_and_delete roots ?st2"
  have 1: "driver_invariant ?st1" using assms driver_invariant_cong[of ?st1 st] by simp
  have 2: "driver_invariant ?st2"
    by (rule fold_invariant[where P = driver_invariant, OF 1]) (rule driver_invariant_stopLogging_document)
  have 3: "driver_invariant ?st3"
    by (rule fold_invariant[where P = driver_invariant, OF 2]) (rule driver_invariant_disconnect_and_delete)
  have "driver_invariant (?st3\<lparr>documents := [], processingThrottler := NoOpThrottler\<rparr>)"
    using 3 driver_invariant_cong[of "?st3\<lparr>documents := [], processingThrottler := NoOpThrottler\<rparr>" ?st3]
    by simp
  then show ?thesis unfolding stopLogging_def Let_def .
qed

lemma driver_invariant_scheduleProcessing:
  "driver_invariant st \<Longrightarrow> driver_invariant (scheduleProcessing st)"
  using driver_invariant_cong[of "scheduleProcessing st" st] by (simp add: scheduleProcessing_def)

lemma driver_invariant_invoke:
  "driver_invariant st \<Longrightarrow> driver_invariant (invoke cb d st)"
  by (cases cb) (simp_all add: driver_invariant_scheduleProcessing driver_invariant_process)

lemma driver_invariant_mutation:
  "driver_invariant st \<Longrightarrow> driver_invariant (mutation node d st)"
  by (simp add: mutation_def driver_invariant_invoke split: option.splits)

lemma driver_invariant_read:
  assumes "driver_invariant st"
  shows "driver_invariant (st\<lparr>effects := effects st @ [RenderCoordinatorRead n]\<rparr>)"
  using assms
  by (simp add: driver_invariant_def observers_live_def callbacks_schedule_def
        attached_count_def disconnected_count_def)

lemma driver_invariant_run_work:
  "driver_invariant st \<Longrightarrow> driver_invariant (run_work w d st)"
  by (cases w) (simp_all add: driver_invariant_process driver_invariant_read)

lemma driver_invariant_fires:
  assumes "driver_invariant st"
  shows "driver_invariant (processingThrottler_fires d st)"
proof (cases "pending (processingThrottler st)")
  case None
  with assms show ?thesis by (simp add: processingThrottler_fires_def)
next
  case (Some w)
  let ?st1 = "st\<lparr>processingThrottler := fired (processingThrottler st)\<rparr>"
  have "driver_invariant ?st1" using assms driver_invariant_cong[of ?st1 st] by simp
  then have "driver_invariant (run_work w d ?st1)" by (rule driver_invariant_run_work)
  with Some show ?thesis by (simp add: processingThrottler_fires_def)
qed

lemma driver_invariant_onDragStart: "driver_invariant st \<Longrightarrow> driver_invariant (onDragStart e st)"
  using driver_invariant_cong[of "onDragStart e st" st] by (cases e) simp_all

lemma driver_invariant_maybeCancelDrag: "driver_invariant st \<Longrightarrow> driver_invariant (maybeCancelDrag e st)"
  using driver_invariant_cong[of "maybeCancelDrag e st" st] by (cases e) simp_all

lemma driver_invariant_step: "driver_invariant st \<Longrightarrow> driver_invariant (step i st)"
  by (cases i)
     (simp_all add: driver_invariant_startLogging driver_invariant_addDocument
        driver_invariant_stopLogging driver_invariant_scheduleProcessing driver_invariant_mutation
        driver_invariant_fires driver_invariant_onDragStart driver_invariant_maybeCancelDrag)

lemma driver_invariant_run: "driver_invariant st \<Longrightarrow> driver_invariant (run inputs st)"
  unfolding run_def by (rule fold_invariant) (simp_all add: driver_invariant_step)

subsection \<open>Claim C9: observeMutations is idempotent per root\<close>




subsection \<open>Claim C8: the logging lifecycle\<close>

lemma processing_runs_neutral:
  "list_all neutral es \<Longrightarrow> processing_runs (xs @ es) = processing_runs xs"
  using neutral_counts[of es 0] by simp

lemma addDocument_frame:
  "processingThrottler (addDocument document d st) = processingThrottler st
   \<and> logging (addDocument document d st) = logging st
   \<and> processing_runs (effects (addDocument document d st)) = processing_runs (effects st)"
proof -
  let ?st1 = "st\<lparr>documents := documents st @ [document]\<rparr>"
  let ?st2 = "if readyState document \<in> set [''interactive'', ''complete''] then process d ?st1 else ?st1"
  let ?es = "[AddEventListener (doc document) ''visibilitychange'' ScheduleProcessingListener,
              AddEventListener (doc document) ''scroll'' ScheduleProcessingListener]"
  have 2: "processingThrottler ?st2 = processingThrottler st \<and> logging ?st2 = logging st
           \<and> processing_runs (effects ?st2) = processing_runs (effects st)"
    using process_frame[of d ?st1] by simp
  have n: "list_all neutral ?es" by simp
  have 3: "processingThrottler (?st2\<lparr>effects := effects ?st2 @ ?es\<rparr>) = processingThrottler st
           \<and> logging (?st2\<lparr>effects := effects ?st2 @ ?es\<rparr>) = logging st
           \<and> processing_runs (effects (?st2\<lparr>effects := effects ?st2 @ ?es\<rparr>)) = processing_runs (effects st)"
    using 2 processing_runs_neutral[OF n, of "effects ?st2"] by simp
  show ?thesis
    unfolding addDocument_def Let_def
    using 3 observeMutations_frame[of "[body document]" "?st2\<lparr>effects := effects ?st2 @ ?es\<rparr>" 0]
    by simp
qed

lemma startLogging_frame:
  "logging (startLogging opts document d st)
   \<and> processingThrottler (startLogging opts document d st)
       = option_or_new opts o_processingThrottler PROCESS_DOM_INTERVAL"
  unfolding startLogging_def Let_def by (simp add: addDocument_frame)

lemma disconnect_and_delete_frame:
  "logging (disconnect_and_delete node st) = logging st
   \<and> documents (disconnect_and_delete node st) = documents st
   \<and> processingThrottler (disconnect_and_delete node st) = processingThrottler st
   \<and> processing_runs (effects (disconnect_and_delete node st)) = processing_runs (effects st)"
  by (simp add: disconnect_and_delete_def processing_runs_def split: option.splits)

lemma stopLogging_document_frame:
  "logging (stopLogging_document document st) = logging st
   \<and> documents (stopLogging_document document st) = documents st
   \<and> processingThrottler (stopLogging_document document st) = processingThrottler st
   \<and> processing_runs (effects (stopLogging_document document st)) = processing_runs (effects st)"
  by (simp add: stopLogging_document_def disconnect_and_delete_frame) (simp add: processing_runs_def)

lemma fold_stopLogging_document_frame:
  "logging (fold stopLogging_document ds st) = logging st
   \<and> processing_runs (effects (fold stopLogging_document ds st)) = processing_runs (effects st)"
  by (induction ds arbitrary: st) (simp_all add: stopLogging_document_frame)

lemma fold_disconnect_and_delete_frame:
  "logging (fold disconnect_and_delete roots st) = logging st
   \<and> processing_runs (effects (fold disconnect_and_delete roots st)) = processing_runs (effects st)"
  by (induction roots arbitrary: st) (simp_all add: disconnect_and_delete_frame)

lemma stopLogging_frame:
  "\<not> logging (stopLogging roots st)
   \<and> documents (stopLogging roots st) = []
   \<and> processingThrottler (stopLogging roots st) = NoOpThrottler
   \<and> processing_runs (effects (stopLogging roots st)) = processing_runs (effects st)"
  unfolding stopLogging_def Let_def
  by (simp add: fold_disconnect_and_delete_frame fold_stopLogging_document_frame)






subsection \<open>Claim C2: processing is throttled\<close>

lemma pending_fired [simp]: "pending (fired t) = None"
  by (cases t) simp_all

lemma schedule_idem [simp]: "schedule w (schedule w t) = schedule w t"
  by (cases t) simp_all

lemma scheduleProcessing_idem: "scheduleProcessing (scheduleProcessing st) = scheduleProcessing st"
  by (simp add: scheduleProcessing_def)

lemma mutation_scheduled:
  assumes "callbacks_schedule st"
  shows "mutation node d st = (if mutationObservers st node = None then st else scheduleProcessing st)"
proof (cases "mutationObservers st node")
  case None
  then show ?thesis by (simp add: mutation_def)
next
  case (Some obs)
  with assms have "callback obs = ScheduleProcessing" by (simp add: callbacks_schedule_def)
  with Some show ?thesis by (simp add: mutation_def)
qed

lemma callbacks_schedule_scheduleProcessing:
  "callbacks_schedule (scheduleProcessing st) = callbacks_schedule st"
  by (simp add: callbacks_schedule_def scheduleProcessing_def)

lemma mutations_burst:
  assumes "callbacks_schedule st"
  shows "run (map (\<lambda>nd. Mutation (fst nd) (snd nd)) ms) st = st
         \<or> run (map (\<lambda>nd. Mutation (fst nd) (snd nd)) ms) st = scheduleProcessing st"
  using assms unfolding run_def
proof (induction ms arbitrary: st)
  case Nil
  show ?case by simp
next
  case (Cons nd ms)
  show ?case
  proof (cases "mutationObservers st (fst nd)")
    case None
    with Cons.prems have "mutation (fst nd) (snd nd) st = st" by (simp add: mutation_scheduled)
    with Cons.IH[OF Cons.prems] show ?thesis by simp
  next
    case (Some obs)
    with Cons.prems have m: "mutation (fst nd) (snd nd) st = scheduleProcessing st"
      by (simp add: mutation_scheduled)
    have "callbacks_schedule (scheduleProcessing st)"
      using Cons.prems by (simp add: callbacks_schedule_scheduleProcessing)
    from Cons.IH[OF this] m show ?thesis by (auto simp: scheduleProcessing_idem)
  qed
qed

lemma run_work_frame:
  "processingThrottler (run_work w d st) = processingThrottler st
   \<and> processing_runs (effects (run_work w d st)) \<le> processing_runs (effects st) + 1"
  by (cases w) (simp_all add: process_frame, simp add: processing_runs_def)

lemma fires_runs:
  "processing_runs (effects (processingThrottler_fires d st)) \<le> processing_runs (effects st) + 1"
proof (cases "pending (processingThrottler st)")
  case None
  then show ?thesis by (simp add: processingThrottler_fires_def)
next
  case (Some w)
  with run_work_frame[of w d "st\<lparr>processingThrottler := fired (processingThrottler st)\<rparr>"]
  show ?thesis by (simp add: processingThrottler_fires_def)
qed

lemma fires_pending: "pending (processingThrottler (processingThrottler_fires d st)) = None"
proof (cases "pending (processingThrottler st)")
  case None
  then show ?thesis by (simp add: processingThrottler_fires_def)
next
  case (Some w)
  with run_work_frame[of w d "st\<lparr>processingThrottler := fired (processingThrottler st)\<rparr>"]
  show ?thesis by (simp add: processingThrottler_fires_def)
qed

lemma fires_twice:
  "processingThrottler_fires d2 (processingThrottler_fires d1 st) = processingThrottler_fires d1 st"
  using fires_pending[of d1 st]
  by (simp add: processingThrottler_fires_def[of d2])

lemma step_runs:
  "processing_runs (effects (step i st)) \<le> processing_runs (effects st) + (if is_Fires i then 1 else 0)"
proof (cases i)
  case (StartLogging opts document d)
  then show ?thesis
    unfolding startLogging_def Let_def
    by (simp add: startLogging_def Let_def addDocument_frame) (simp add: processing_runs_def)
next
  case (AddDocument document d)
  then show ?thesis by (simp add: addDocument_frame)
next
  case (StopLogging roots)
  then show ?thesis by (simp add: stopLogging_frame)
next
  case ScheduleProcessingCall
  then show ?thesis by (simp add: scheduleProcessing_def)
next
  case (Mutation node d)
  show ?thesis
  proof (cases "mutationObservers st node")
    case None
    with Mutation show ?thesis by (simp add: mutation_def)
  next
    case (Some obs)
    with Mutation show ?thesis
      by (cases "callback obs") (simp_all add: mutation_def scheduleProcessing_def process_frame)
  qed
next
  case (ProcessingThrottlerFires d)
  then show ?thesis using fires_runs[of d st] by simp
next
  case (PointerDown e)
  then show ?thesis by (cases e) simp_all
next
  case (PointerUpOrDragEnd e)
  then show ?thesis by (cases e) simp_all
qed

lemma run_runs:
  "processing_runs (effects (run inputs st)) \<le> processing_runs (effects st) + length (filter is_Fires inputs)"
  unfolding run_def
proof (induction inputs arbitrary: st)
  case Nil
  show ?case by simp
next
  case (Cons i inputs)
  from Cons[of "step i st"] step_runs[of i st] show ?case by auto
qed

text \<open>
  C2. In every state that the module can reach, every registered mutation observer
  calls back \<^verbatim>\<open>scheduleProcessing\<close> and nothing else, so a mutation under a node either
  does nothing or is one call of \<^verbatim>\<open>scheduleProcessing\<close>; \<^verbatim>\<open>scheduleProcessing\<close> only hands
  the processing to \<^verbatim>\<open>processingThrottler.schedule\<close>; when \<^verbatim>\<open>startLogging\<close> is given no
  processing throttler, the throttler has the interval 500. Hence any number of
  mutations leaves the state as it was or as after one call of \<^verbatim>\<open>scheduleProcessing\<close>,
  with no effect on the outside and no logging state touched; when the throttler then
  fires, at most one scheduled processing runs, and a second firing with no mutation in
  between runs none. In general the scheduled processing runs at most once per firing of
  the throttler.
\<close>

theorem processing_is_throttled:
  "(let st = run inputs initial;
        st' = run (map (\<lambda>nd. Mutation (fst nd) (snd nd)) ms) st
    in (\<forall>node obs. mutationObservers st node = Some obs \<longrightarrow> callback obs = ScheduleProcessing)
     \<and> mutation node d st = (if mutationObservers st node = None then st else scheduleProcessing st)
     \<and> scheduleProcessing st = st\<lparr>processingThrottler := schedule ProcessForLogging (processingThrottler st)\<rparr>
     \<and> (opts = None \<or> (\<exists>os. opts = Some os \<and> o_processingThrottler os = None) \<longrightarrow>
          processingThrottler (startLogging opts document d st) = Throttler 500 None)
     \<and> (st' = st \<or> st' = scheduleProcessing st)
     \<and> effects st' = effects st
     \<and> loggingStates st' = loggingStates st
     \<and> processing_runs (effects (processingThrottler_fires d1 st')) \<le> processing_runs (effects st) + 1
     \<and> processingThrottler_fires d2 (processingThrottler_fires d1 st') = processingThrottler_fires d1 st'
     \<and> processing_runs (effects (run later st))
          \<le> processing_runs (effects st) + length (filter is_Fires later))"
proof -
  define st where "st = run inputs initial"
  define st' where "st' = run (map (\<lambda>nd. Mutation (fst nd) (snd nd)) ms) st"
  have inv: "driver_invariant st"
    unfolding st_def by (rule driver_invariant_run) (rule driver_invariant_initial)
  then have cb: "callbacks_schedule st" by (simp add: driver_invariant_def)
  have 1: "\<forall>node obs. mutationObservers st node = Some obs \<longrightarrow> callback obs = ScheduleProcessing"
    using cb by (simp add: callbacks_schedule_def)
  have 2: "mutation node d st = (if mutationObservers st node = None then st else scheduleProcessing st)"
    by (rule mutation_scheduled[OF cb])
  have 3: "scheduleProcessing st = st\<lparr>processingThrottler := schedule ProcessForLogging (processingThrottler st)\<rparr>"
    by (simp add: scheduleProcessing_def)
  have 4: "opts = None \<or> (\<exists>os. opts = Some os \<and> o_processingThrottler os = None) \<longrightarrow>
          processingThrottler (startLogging opts document d st) = Throttler 500 None"
    by (auto simp: startLogging_frame option_or_new_def PROCESS_DOM_INTERVAL_def)
  have 5: "st' = st \<or> st' = scheduleProcessing st"
    unfolding st'_def by (rule mutations_burst[OF cb])
  then have 6: "effects st' = effects st" and 7: "loggingStates st' = loggingStates st"
    by (auto simp: scheduleProcessing_def)
  have 8: "processing_runs (effects (processingThrottler_fires d1 st')) \<le> processing_runs (effects st) + 1"
    using fires_runs[of d1 st'] 6 by simp
  have 9: "processingThrottler_fires d2 (processingThrottler_fires d1 st') = processingThrottler_fires d1 st'"
    by (rule fires_twice)
  have 10: "processing_runs (effects (run later st))
          \<le> processing_runs (effects st) + length (filter is_Fires later)"
    by (rule run_runs)
  from 1 2 3 4 5 6 7 8 9 10 show ?thesis
    unfolding Let_def st_def[symmetric] st'_def[symmetric] by blast
qed

theorem processing_is_throttled_witness:
  "mutationObservers example_started 1 = Some \<lparr>callback = ScheduleProcessing\<rparr>
   \<and> mutation 1 example_dom example_started = scheduleProcessing example_started
   \<and> processingThrottler example_started = Throttler 500 None
   \<and> effects (run (map (\<lambda>nd. Mutation (fst nd) (snd nd)) example_mutations) example_started)
       = effects example_started
   \<and> pending (processingThrottler
        (run (map (\<lambda>nd. Mutation (fst nd) (snd nd)) example_mutations) example_started))
       = Some ProcessForLogging
   \<and> processing_runs (effects (processingThrottler_fires example_dom
        (run (map (\<lambda>nd. Mutation (fst nd) (snd nd)) example_mutations) example_started))) = 1"
proof -
  let ?st = "example_started"
  let ?st' = "run (map (\<lambda>nd. Mutation (fst nd) (snd nd)) example_mutations) ?st"
  have r: "run [StartLogging None example_document example_dom] initial = ?st"
    by (simp add: run_def example_started_def)
  have m: "mutationObservers ?st 1 = Some \<lparr>callback = ScheduleProcessing\<rparr>" by code_simp
  have p: "pending (processingThrottler ?st') = Some ProcessForLogging" by code_simp
  have z: "processing_runs (effects ?st) = 0" by code_simp
  have o: "processing_runs (effects (processingThrottler_fires example_dom ?st')) \<ge> 1" by code_simp
  from processing_is_throttled
         [of "[StartLogging None example_document example_dom]" example_mutations 1 example_dom
             None example_document example_dom]
  have t: "mutation 1 example_dom ?st
             = (if mutationObservers ?st 1 = None then ?st else scheduleProcessing ?st)
       \<and> effects ?st' = effects ?st
       \<and> processing_runs (effects (processingThrottler_fires example_dom ?st'))
            \<le> processing_runs (effects ?st) + 1"
    unfolding Let_def r by blast
  from processing_is_throttled
         [of "[]" "[]" 0 example_dom None example_document example_dom]
  have d: "processingThrottler ?st = Throttler 500 None"
    unfolding Let_def example_started_def by (simp add: run_def)
  from t m p z o d show ?thesis by simp
qed

subsection \<open>Claim C5: an impression is logged at most once\<close>













subsection \<open>Claim C6: the drag-cancel threshold\<close>

text \<open>
  C6. For a pointerup or dragend \<^verbatim>\<open>MouseEvent\<close>, \<^verbatim>\<open>maybeCancelDrag\<close> schedules the
  cancellation on the drag throttler if and only if the screen position is strictly less
  than 50 away from the start of the drag on the x axis and strictly less than 50 away
  on the y axis; otherwise it leaves everything as it was. With the log of a drag
  pending, the cancellation replaces it in the first case, and it stays pending when the
  pointer has moved by 50 or more on either axis.
\<close>

theorem maybeCancelDrag_threshold:
  "maybeCancelDrag (MouseEvent screenX screenY) st =
     (if \<bar>screenX - dragStartX st\<bar> < 50 \<and> \<bar>screenY - dragStartY st\<bar> < 50
      then st\<lparr>dragLogThrottler := schedule CancelLogging (dragLogThrottler st)\<rparr>
      else st)
   \<and> (dragLogThrottler st = Throttler interval (Some LogDrag) \<longrightarrow>
        (pending (dragLogThrottler (maybeCancelDrag (MouseEvent screenX screenY) st)) = Some CancelLogging
           \<longleftrightarrow> \<bar>screenX - dragStartX st\<bar> < 50 \<and> \<bar>screenY - dragStartY st\<bar> < 50)
      \<and> (pending (dragLogThrottler (maybeCancelDrag (MouseEvent screenX screenY) st)) = Some LogDrag
           \<longleftrightarrow> \<bar>screenX - dragStartX st\<bar> \<ge> 50 \<or> \<bar>screenY - dragStartY st\<bar> \<ge> 50))"
  by (auto simp: DRAG_REPORT_THRESHOLD_def)


theorem maybeCancelDrag_threshold_witness:
  "dragLogThrottler (onDragStart (MouseEvent 100 200) example_drag_start) = Throttler 1250 (Some LogDrag)
   \<and> pending (dragLogThrottler (maybeCancelDrag (MouseEvent 149 151) (onDragStart (MouseEvent 100 200) example_drag_start)))
       = Some CancelLogging
   \<and> pending (dragLogThrottler (maybeCancelDrag (MouseEvent 150 200) (onDragStart (MouseEvent 100 200) example_drag_start)))
       = Some LogDrag
   \<and> pending (dragLogThrottler (maybeCancelDrag (MouseEvent 100 150) (onDragStart (MouseEvent 100 200) example_drag_start)))
       = Some LogDrag"
proof -
  let ?st = "onDragStart (MouseEvent 100 200) example_drag_start"
  have t: "dragLogThrottler ?st = Throttler 1250 (Some LogDrag)"
    by (simp add: example_drag_start_def initial_def logDrag_def DRAG_LOG_INTERVAL_def)
  have x: "dragStartX ?st = 100" and y: "dragStartY ?st = 200" by simp_all
  from maybeCancelDrag_threshold [of 149 151 ?st 1250]
       maybeCancelDrag_threshold [of 150 200 ?st 1250]
       maybeCancelDrag_threshold [of 100 150 ?st 1250] t
  show ?thesis unfolding x y by simp
qed


section \<open>The issues pane (IssuesPaneImpl)\<close>

text \<open>
  The source of the issues pane follows the logging driver in LoggingDriver.ts:
  \<^verbatim>\<open>AffectedCookiesView\<close>, \<^verbatim>\<open>AggregatedIssueView\<close>, \<^verbatim>\<open>IssuesPaneImpl\<close> and the table
  \<^verbatim>\<open>issueDetails\<close>.
\<close>

text \<open>
  The table \<^verbatim>\<open>issueDetails\<close>: an object literal with three own properties.
\<close>

datatype Priority = High

record details =
  title :: string
  message :: string
  priority :: Priority
  link :: string
  linkTitle :: string

definition issueDetails :: "(string \<times> details) list" where
  "issueDetails =
     [(''SameSiteCookies::SameSiteNoneWithoutSecure'',
       \<lparr>title = ''A Cookie has been set with SameSite=None but without Secure'',
        message = ''In a future version of chrome, third party cookies will only be sent when marked as SameSite=None and Secure to prevent them from being accessed in a man in the middle scenario.'',
        priority = High,
        link = ''https://web.dev/samesite-cookies-explained/'',
        linkTitle = ''SameSite cookies explained''\<rparr>),
      (''SameSiteCookies::SameSiteNoneMissingForThirdParty'',
       \<lparr>title = ''A Cookie in a third party context has been set without SameSite=None'',
        message = ''In a future version of chrome, third party cookies will only be sent when marked as SameSite=None and Secure to prevent them from being accessed in a man in the middle szenario.'',
        priority = High,
        link = ''https://web.dev/samesite-cookies-explained/'',
        linkTitle = ''SameSite cookies explained''\<rparr>),
      (''SameSiteCookieIssue'',
       \<lparr>title = ''A Cookie in a third party context has been set without SameSite=None'',
        message = ''In a future version of chrome, third party cookies will only be sent when marked as SameSite=None and Secure to prevent them from being accessed in a man in the middle szenario.'',
        priority = High,
        link = ''https://web.dev/samesite-cookies-explained/'',
        linkTitle = ''SameSite cookies explained''\<rparr>)]"

text \<open>
  The JavaScript operator \<^verbatim>\<open>in\<close> holds for the own properties of an object and for those
  it inherits through its prototype chain. The prototype of an object literal is
  \<^verbatim>\<open>Object.prototype\<close>, whose properties are listed here. Reading an inherited property
  gives a value that is not one of the details of the table.
\<close>

definition Object_prototype_properties :: "string list" where
  "Object_prototype_properties =
     [''constructor'', ''__defineGetter__'', ''__defineSetter__'', ''hasOwnProperty'',
      ''__lookupGetter__'', ''__lookupSetter__'', ''isPrototypeOf'', ''propertyIsEnumerable'',
      ''toString'', ''valueOf'', ''__proto__'', ''toLocaleString'']"

definition in_object_literal :: "string \<Rightarrow> (string \<times> 'v) list \<Rightarrow> bool" where
  "in_object_literal key obj =
     (key \<in> set (map fst obj) \<or> key \<in> set Object_prototype_properties)"

datatype 'v property_value = Own 'v | Inherited | Undefined

definition get_property :: "string \<Rightarrow> (string \<times> 'v) list \<Rightarrow> 'v property_value" where
  "get_property key obj =
     (case map_of obj key of
        Some v \<Rightarrow> Own v
      | None \<Rightarrow> if key \<in> set Object_prototype_properties then Inherited else Undefined)"

text \<open>
  An \<^verbatim>\<open>AggregatedIssueView\<close> keeps the aggregated issue it was made for (an object, known
  by its identity), the details read from the table, and its \<^verbatim>\<open>AffectedCookiesView\<close>: the
  rows of the table of affected cookies and the count shown. The aggregated issues
  live in a heap \<open>issues\<close> that maps an identity to the object.
\<close>

record 'c AggregatedIssueView =
  v_issue :: ref
  v_details :: "details property_value"
  v_affectedCookies :: "'c list"
  v_cookiesCount :: nat

definition AffectedCookiesView_update ::
  "(ref \<Rightarrow> ('k, 'c) AggregatedIssue) \<Rightarrow> 'c AggregatedIssueView \<Rightarrow> 'c AggregatedIssueView" where
  "AffectedCookiesView_update issues view =
     view\<lparr>v_affectedCookies := AggregatedIssue_cookies (issues (v_issue view)),
          v_cookiesCount := numberOfCookies (issues (v_issue view))\<rparr>"

definition AggregatedIssueView_new ::
  "(ref \<Rightarrow> ('k, 'c) AggregatedIssue) \<Rightarrow> ref \<Rightarrow> 'c AggregatedIssueView" where
  "AggregatedIssueView_new issues issue =
     AffectedCookiesView_update issues
       \<lparr>v_issue = issue,
        v_details = get_property (AggregatedIssue_code (issues issue)) issueDetails,
        v_affectedCookies = [], v_cookiesCount = 0\<rparr>"

text \<open>
  What \<^verbatim>\<open>appendHeader\<close> writes to the console when the view is made: the switch over the
  priority knows \<^verbatim>\<open>Priority.High\<close> only.
\<close>

definition appendHeader_console :: "details property_value \<Rightarrow> (string \<times> string) list" where
  "appendHeader_console d =
     (case d of
        Own ds \<Rightarrow> (case priority ds of High \<Rightarrow> [])
      | Inherited \<Rightarrow> [(''Unknown issue priority'', ''undefined'')]
      | Undefined \<Rightarrow> [(''Unknown issue priority'', ''undefined'')])"

definition AggregatedIssueView_update ::
  "(ref \<Rightarrow> ('k, 'c) AggregatedIssue) \<Rightarrow> 'c AggregatedIssueView \<Rightarrow> 'c AggregatedIssueView" where
  "AggregatedIssueView_update issues view = AffectedCookiesView_update issues view"

text \<open>
  The pane: the map \<^verbatim>\<open>_issueViews\<close>, the views shown in its content element, the text of
  the toolbar counter, and the warnings written to the console. The pane has a model
  (its constructor reads the model's count); \<open>n\<close> below is what the model's
  \<^verbatim>\<open>numberOfAggregatedIssues()\<close> returns.
\<close>

record 'c IssuesPaneImpl =
  p_issueViews :: "(string, 'c AggregatedIssueView) js_map"
  p_shown :: "string list"
  p_toolbarIssuesCount :: nat
  p_console :: "(string \<times> string) list"

definition updateCounts :: "nat \<Rightarrow> 'c IssuesPaneImpl \<Rightarrow> 'c IssuesPaneImpl" where
  "updateCounts n this = this\<lparr>p_toolbarIssuesCount := n\<rparr>"

text \<open>
  \<^verbatim>\<open>map.get(key).update()\<close>: the view stored for the key is updated where it is; with no
  view for the key, \<^verbatim>\<open>get\<close> returns \<^verbatim>\<open>undefined\<close> and the call throws.
\<close>

fun Map_update_at :: "'k \<Rightarrow> ('v \<Rightarrow> 'v) \<Rightarrow> ('k, 'v) js_map \<Rightarrow> js_error + ('k, 'v) js_map" where
  "Map_update_at k f [] = Inl TypeError"
| "Map_update_at k f ((k', v) # m) =
     (if k' = k then Inr ((k', f v) # m)
      else (case Map_update_at k f m of Inl e \<Rightarrow> Inl e | Inr m' \<Rightarrow> Inr ((k', v) # m')))"

text \<open>The method \<^verbatim>\<open>_updateAggregatedIssueView\<close>.\<close>

definition updateAggregatedIssueView ::
  "nat \<Rightarrow> (ref \<Rightarrow> ('k, 'c) AggregatedIssue) \<Rightarrow> ref \<Rightarrow> 'c IssuesPaneImpl \<Rightarrow>
   js_error + 'c IssuesPaneImpl" where
  "updateAggregatedIssueView n issues aggregatedIssue this =
     (let code = AggregatedIssue_code (issues aggregatedIssue) in
      if \<not> in_object_literal code issueDetails
      then Inr (this\<lparr>p_console := p_console this @ [(''Unknown issue code:'', code)]\<rparr>)
      else
        (let this1 =
               (if \<not> Map_has code (p_issueViews this)
                then this\<lparr>p_issueViews :=
                            Map_set code (AggregatedIssueView_new issues aggregatedIssue)
                              (p_issueViews this),
                          p_shown := p_shown this @ [code],
                          p_console := p_console this
                            @ appendHeader_console (get_property code issueDetails)\<rparr>
                else this)
         in (case Map_update_at code (AggregatedIssueView_update issues) (p_issueViews this1) of
               Inl e \<Rightarrow> Inl e
             | Inr views \<Rightarrow> Inr (updateCounts n (this1\<lparr>p_issueViews := views\<rparr>)))))"

definition IssuesPaneImpl_empty :: "'c IssuesPaneImpl" where
  "IssuesPaneImpl_empty =
     \<lparr>p_issueViews = Map_new, p_shown = [], p_toolbarIssuesCount = 0, p_console = []\<rparr>"

definition example_aggregated :: "ref \<Rightarrow> (string, example_cookie) AggregatedIssue" where
  "example_aggregated r =
     (if r = 1 then AggregatedIssue_new ''toString''
      else if r = 2 then (AggregatedIssue_new ''SameSiteCookieIssue'')\<lparr>a_cookies := [(''a'', (1, ''a''))]\<rparr>
      else AggregatedIssue_new ''NotAnIssue'')"


subsection \<open>Claim C4: one view per issue code\<close>

text \<open>
  What \<^verbatim>\<open>_updateAggregatedIssueView\<close> does, by the outcome of its guard
  \<^verbatim>\<open>aggregatedIssue.code() in issueDetails\<close>: when the guard fails only a warning is
  written; when it holds and the map has no view for the code, a view is made, stored
  and shown, and the counter is set; when the map has a view, that view is updated where
  it is, no entry is added, and the counter is set.
\<close>

lemma Map_update_at_append:
  "\<not> Map_has k m \<Longrightarrow> Map_update_at k f (m @ [(k, v)]) = Inr (m @ [(k, f v)])"
  by (induction m) (auto simp: Map_has_def)

lemma Map_update_at_present:
  "Map_has k m \<Longrightarrow> \<exists>m'. Map_update_at k f m = Inr m' \<and> map fst m' = map fst m
     \<and> (\<forall>k'. k' \<noteq> k \<longrightarrow> map_of m' k' = map_of m k')
     \<and> map_of m' k = map_option f (map_of m k)"
proof (induction m)
  case Nil
  then show ?case by (simp add: Map_has_def)
next
  case (Cons kv m)
  show ?case
  proof (cases "fst kv = k")
    case True
    then show ?thesis by (cases kv) auto
  next
    case False
    with Cons.prems have "Map_has k m" by (cases kv) (auto simp: Map_has_def)
    from Cons.IH[OF this] obtain m' where "Map_update_at k f m = Inr m'" "map fst m' = map fst m"
      "\<forall>k'. k' \<noteq> k \<longrightarrow> map_of m' k' = map_of m k'" "map_of m' k = map_option f (map_of m k)"
      by blast
    with False show ?thesis by (cases kv) auto
  qed
qed

lemma AffectedCookiesView_update_idem:
  "AffectedCookiesView_update issues (AffectedCookiesView_update issues view)
     = AffectedCookiesView_update issues view"
  by (simp add: AffectedCookiesView_update_def)

lemma updateAggregatedIssueView_unknown:
  assumes "\<not> in_object_literal (AggregatedIssue_code (issues a)) issueDetails"
  shows "updateAggregatedIssueView n issues a this =
           Inr (this\<lparr>p_console := p_console this
                  @ [(''Unknown issue code:'', AggregatedIssue_code (issues a))]\<rparr>)"
  using assms by (simp add: updateAggregatedIssueView_def)

lemma updateAggregatedIssueView_first:
  assumes "in_object_literal (AggregatedIssue_code (issues a)) issueDetails"
    and "\<not> Map_has (AggregatedIssue_code (issues a)) (p_issueViews this)"
  shows "updateAggregatedIssueView n issues a this =
           Inr (this\<lparr>p_issueViews := p_issueViews this
                    @ [(AggregatedIssue_code (issues a), AggregatedIssueView_new issues a)],
                  p_shown := p_shown this @ [AggregatedIssue_code (issues a)],
                  p_console := p_console this
                    @ appendHeader_console (get_property (AggregatedIssue_code (issues a)) issueDetails),
                  p_toolbarIssuesCount := n\<rparr>)"
proof -
  let ?code = "AggregatedIssue_code (issues a)"
  have u: "AggregatedIssueView_update issues (AggregatedIssueView_new issues a)
             = AggregatedIssueView_new issues a"
    by (simp add: AggregatedIssueView_update_def AggregatedIssueView_new_def
          AffectedCookiesView_update_idem)
  have s: "Map_set ?code (AggregatedIssueView_new issues a) (p_issueViews this)
             = p_issueViews this @ [(?code, AggregatedIssueView_new issues a)]"
    by (rule Map_set_absent[OF assms(2)])
  have m: "Map_update_at ?code (AggregatedIssueView_update issues)
             (p_issueViews this @ [(?code, AggregatedIssueView_new issues a)])
           = Inr (p_issueViews this @ [(?code, AggregatedIssueView_new issues a)])"
    using Map_update_at_append[OF assms(2), of "AggregatedIssueView_update issues"
            "AggregatedIssueView_new issues a"] u by simp
  show ?thesis
    using assms by (simp add: updateAggregatedIssueView_def Let_def s m updateCounts_def)
qed

lemma updateAggregatedIssueView_again:
  assumes "in_object_literal (AggregatedIssue_code (issues a)) issueDetails"
    and "Map_has (AggregatedIssue_code (issues a)) (p_issueViews this)"
  shows "\<exists>views. updateAggregatedIssueView n issues a this =
           Inr (this\<lparr>p_issueViews := views, p_toolbarIssuesCount := n\<rparr>)
         \<and> map fst views = map fst (p_issueViews this)
         \<and> (\<forall>k. k \<noteq> AggregatedIssue_code (issues a) \<longrightarrow> map_of views k = map_of (p_issueViews this) k)
         \<and> map_of views (AggregatedIssue_code (issues a))
             = map_option (AggregatedIssueView_update issues)
                 (map_of (p_issueViews this) (AggregatedIssue_code (issues a)))"
proof -
  let ?code = "AggregatedIssue_code (issues a)"
  from Map_update_at_present[OF assms(2), of "AggregatedIssueView_update issues"]
  obtain views where v: "Map_update_at ?code (AggregatedIssueView_update issues) (p_issueViews this) = Inr views"
    and k: "map fst views = map fst (p_issueViews this)"
    and o: "\<forall>k'. k' \<noteq> ?code \<longrightarrow> map_of views k' = map_of (p_issueViews this) k'"
    and u: "map_of views ?code = map_option (AggregatedIssueView_update issues) (map_of (p_issueViews this) ?code)"
    by blast
  have "updateAggregatedIssueView n issues a this =
           Inr (this\<lparr>p_issueViews := views, p_toolbarIssuesCount := n\<rparr>)"
    using assms v by (simp add: updateAggregatedIssueView_def Let_def updateCounts_def)
  with k o u show ?thesis by blast
qed

text \<open>
  C4. The claim is that an aggregated issue whose code is not a key of \<^verbatim>\<open>issueDetails\<close>
  makes \<^verbatim>\<open>_updateAggregatedIssueView\<close> return without creating a view. The code
  \<^verbatim>\<open>toString\<close> is not a key of the table, yet \<^verbatim>\<open>'toString' in issueDetails\<close> holds
  through \<^verbatim>\<open>Object.prototype\<close>: on an empty pane the method makes a view for it, stores it
  in \<^verbatim>\<open>_issueViews\<close>, shows it and sets the counter, and writes no warning about an unknown
  issue code.
\<close>

theorem updateAggregatedIssueView_inherited_property:
  "''toString'' \<notin> set (map fst issueDetails)
   \<and> AggregatedIssue_code (example_aggregated 1) = ''toString''
   \<and> updateAggregatedIssueView 1 example_aggregated 1 IssuesPaneImpl_empty =
       Inr \<lparr>p_issueViews =
              [(''toString'',
                \<lparr>v_issue = 1, v_details = Inherited, v_affectedCookies = [], v_cookiesCount = 0\<rparr>)],
            p_shown = [''toString''], p_toolbarIssuesCount = 1,
            p_console = [(''Unknown issue priority'', ''undefined'')]\<rparr>"
  by code_simp

end
